theory Spec2Isabelle
  imports Complex_Main "HOL-Library.Sublist"
begin

section \<open>Python string and file primitives used by \<open>scripts/copy_datadir.py\<close>\<close>

text \<open>
  A Python \<open>str\<close> is a sequence of Unicode code points; the ledger, its lines, the lock
  ids and the timestamps are such strings, here lists of code points. The ledger is
  the text that reading the file yields; a file whose bytes do not decode makes the
  read raise, which is an outcome of the read below. \<open>str\<close> gives the code points of an
  ASCII literal. File names and paths are byte strings, as the system calls see them.
\<close>

type_synonym pystr = "nat list"

definition str :: "string \<Rightarrow> pystr" where
  "str s = map of_char s"

text \<open>
  \<open>str.strip()\<close> removes leading and trailing whitespace: the code points for which
  \<open>str.isspace\<close> holds, that is U+0009..U+000D, U+001C..U+0020, U+0085, U+00A0, U+1680,
  U+2000..U+200A, U+2028, U+2029, U+202F, U+205F and U+3000.
\<close>

definition is_space :: "nat \<Rightarrow> bool" where
  "is_space n =
     (n \<in> set [9, 10, 11, 12, 13, 28, 29, 30, 31, 32, 133, 160, 5760, 8232, 8233, 8239, 8287, 12288]
      \<or> (8192 \<le> n \<and> n \<le> 8202))"

definition strip :: "pystr \<Rightarrow> pystr" where
  "strip s = rev (dropWhile is_space (rev (dropWhile is_space s)))"

definition startswith :: "'a list \<Rightarrow> 'a list \<Rightarrow> bool" where
  "startswith s p = prefix p s"

definition endswith :: "'a list \<Rightarrow> 'a list \<Rightarrow> bool" where
  "endswith s p = suffix p s"

text \<open>\<open>s.split(".")\<close>: the fields between the dots (code point 46), at least one field.\<close>

fun split_on :: "nat \<Rightarrow> pystr \<Rightarrow> pystr \<Rightarrow> pystr list" where
  "split_on d acc [] = [rev acc]"
| "split_on d acc (c # cs) =
     (if c = d then rev acc # split_on d [] cs else split_on d (c # acc) cs)"

definition split_dot :: "pystr \<Rightarrow> pystr list" where
  "split_dot s = split_on 46 [] s"

text \<open>
  Iterating over a file opened in text mode yields its lines; \<open>\n\<close> (10), \<open>\r\n\<close> and a
  lone \<open>\r\<close> (13) end a line (universal newlines) and nothing else does. The terminator
  is dropped here: every reader of the ledger strips the line first. A file that ends
  in a terminator has no further (empty) line after it.
\<close>

fun py_lines_acc :: "pystr \<Rightarrow> pystr \<Rightarrow> pystr list" where
  "py_lines_acc acc [] = (if acc = [] then [] else [rev acc])"
| "py_lines_acc acc (c # cs) =
     (if c = 10 then rev acc # py_lines_acc [] cs
      else if c = 13 then
        (case cs of
           c' # cs' \<Rightarrow> if c' = 10 then rev acc # py_lines_acc [] cs'
                       else rev acc # py_lines_acc [] cs
         | [] \<Rightarrow> [rev acc])
      else py_lines_acc (c # acc) cs)"

definition py_lines :: "pystr \<Rightarrow> pystr list" where
  "py_lines s = py_lines_acc [] s"

text \<open>\<open>os.path.join(a, b)\<close> of \<open>posixpath\<close>.\<close>

definition path_join :: "string \<Rightarrow> string \<Rightarrow> string" where
  "path_join a b =
     (if startswith b ''/'' then b
      else if a = [] \<or> endswith a ''/'' then a @ b
      else a @ ''/'' @ b)"

datatype error =
    FileNotFoundError
  | UnicodeDecodeError
  | ValueError
  | KeyError
  | IndexError
  | OSError
  | CalledProcessError

section \<open>The lock ledger: \<open>has_locks\<close>\<close>

text \<open>
  A ledger line counts as a write lock of somebody else when it ends in \<open>.write\<close> and
  the caller gave a lock id that is not a prefix of the line (the generator expression
  in the \<open>while any(...)\<close> condition of \<open>has_locks\<close>).
\<close>

definition foreign_write :: "pystr option \<Rightarrow> pystr \<Rightarrow> bool" where
  "foreign_write lock line =
     (endswith (strip line) (str ''.write'')
      \<and> (case lock of None \<Rightarrow> False | Some l \<Rightarrow> \<not> startswith (strip line) l))"

text \<open>
  The wait loop. The ledger may change while the caller sleeps, so the file is an oracle:
  \<open>rd k\<close> is what the \<open>k\<close>-th reading of \<open>lock_f\<close> by the call yields, the text of the file
  or the exception raised (\<open>FileNotFoundError\<close> when the file is gone,
  \<open>UnicodeDecodeError\<close> when it does not decode). The loop state is \<open>tries\<close>, the number
  of reads done, \<open>have_write_locks\<close> and the durations passed to \<open>sleep\<close> so far. Nothing
  in the loop's shape says that it ends, so it is a partial function; that it returns
  from \<open>tries = 1\<close> is a theorem below.
\<close>

type_synonym wait_state = "bool \<times> nat \<times> nat list"

partial_function (option) wait_loop ::
  "(nat \<Rightarrow> error + pystr) \<Rightarrow> pystr option \<Rightarrow> bool \<Rightarrow> nat \<Rightarrow> nat \<Rightarrow> bool \<Rightarrow> nat list
     \<Rightarrow> (error + wait_state) option" where
  "wait_loop rd lock wait_write_lock tries k have_write_locks sleeps =
     (case rd k of
        Inl x \<Rightarrow> Some (Inl x)
      | Inr content \<Rightarrow>
          if list_ex (foreign_write lock) (py_lines content) then
            (if \<not> wait_write_lock then Some (Inr (True, Suc k, sleeps))
             else if tries * 2 > 2 ^ 11 then Some (Inr (True, Suc k, sleeps @ [tries]))
             else wait_loop rd lock wait_write_lock (tries * 2) (Suc k) True (sleeps @ [tries]))
          else Some (Inr (have_write_locks, Suc k, sleeps)))"

declare wait_loop.simps [code]

text \<open>
  The second pass looks for recent activity. \<open>strptime\<close> is the library's parser for the
  format \<open>%Y%m%d%H%M\<close>; it is a parameter here and returns the minutes since some fixed
  epoch, or \<open>None\<close> where Python raises \<open>ValueError\<close>. The \<open>try\<close> block also catches the
  \<open>IndexError\<close> of a line without a dot. The timestamp is taken from the second
  dot-separated field of the line, \<open>line.split(".")[1]\<close>.
\<close>

definition lock_timestamp :: "(pystr \<Rightarrow> int option) \<Rightarrow> pystr \<Rightarrow> int option" where
  "lock_timestamp strptime line =
     (case split_dot line of
        _ # ts # _ \<Rightarrow> strptime ts
      | _ \<Rightarrow> None)"

fun scan_read_locks :: "(pystr \<Rightarrow> int option) \<Rightarrow> int \<Rightarrow> pystr option \<Rightarrow> pystr list \<Rightarrow> bool" where
  "scan_read_locks strptime cur_timestamp lock [] = False"
| "scan_read_locks strptime cur_timestamp lock (raw # rest) =
     (let line = strip raw in
      if (case lock of None \<Rightarrow> False | Some l \<Rightarrow> startswith line l)
        then scan_read_locks strptime cur_timestamp lock rest
      else
        (case lock_timestamp strptime line of
           None \<Rightarrow> scan_read_locks strptime cur_timestamp lock rest
         | Some t \<Rightarrow>
             if cur_timestamp - t < 24 * 60 then True
             else scan_read_locks strptime cur_timestamp lock rest))"

record lock_state =
  have_read_locks :: bool
  have_write_locks :: bool
  slept :: "nat list"

text \<open>
  \<open>has_locks\<close>. \<open>timestamp\<close> is the module's global, the start of the run as a string.
  \<open>os.path.isfile(lock_f)\<close> is false when the first read would find no file. The result
  also carries the sleeps of the call, in order.
\<close>

definition has_locks ::
  "(pystr \<Rightarrow> int option) \<Rightarrow> pystr \<Rightarrow> (nat \<Rightarrow> error + pystr) \<Rightarrow> pystr option \<Rightarrow> bool
     \<Rightarrow> (error + lock_state) option" where
  "has_locks strptime timestamp rd lock wait_write_lock =
     (if rd 0 = Inl FileNotFoundError
        then Some (Inr \<lparr>have_read_locks = False, have_write_locks = False, slept = []\<rparr>)
      else
        (case wait_loop rd lock wait_write_lock 1 0 False [] of
           None \<Rightarrow> None
         | Some (Inl e) \<Rightarrow> Some (Inl e)
         | Some (Inr (hw, k, sl)) \<Rightarrow>
             (case strptime timestamp of
                None \<Rightarrow> Some (Inl ValueError)
              | Some cur_timestamp \<Rightarrow>
                  (case rd k of
                     Inl x \<Rightarrow> Some (Inl x)
                   | Inr content \<Rightarrow>
                       Some (Inr \<lparr>have_read_locks =
                                    scan_read_locks strptime cur_timestamp lock (py_lines content),
                                  have_write_locks = hw, slept = sl\<rparr>)))))"

text \<open>
  Vocabulary for the properties below. Read off the two loops: the \<open>k\<close>-th read finds a
  foreign write lock (the loop condition holds); a line is the caller's for the second
  loop (it is skipped); a line makes the second loop set \<open>have_read_locks\<close> (it is not
  the caller's, its second field parses and is less than a day before the run's
  timestamp). Read off the record format \<open><ownerId>.<timestamp>.<kind>\<close>: a line is,
  once stripped, the record of \<open>owner\<close>, \<open>stamp\<close> and \<open>kind\<close>, where neither the owner
  id nor the timestamp contains a dot.
\<close>

definition blocked :: "(nat \<Rightarrow> error + pystr) \<Rightarrow> pystr option \<Rightarrow> nat \<Rightarrow> bool" where
  "blocked rd lock k =
     (case rd k of Inl _ \<Rightarrow> False | Inr content \<Rightarrow> list_ex (foreign_write lock) (py_lines content))"

definition own_line :: "pystr option \<Rightarrow> pystr \<Rightarrow> bool" where
  "own_line lock raw = (case lock of None \<Rightarrow> False | Some l \<Rightarrow> startswith (strip raw) l)"

definition recent_foreign :: "(pystr \<Rightarrow> int option) \<Rightarrow> int \<Rightarrow> pystr option \<Rightarrow> pystr \<Rightarrow> bool" where
  "recent_foreign strptime cur_timestamp lock raw =
     (\<not> (case lock of None \<Rightarrow> False | Some l \<Rightarrow> startswith (strip raw) l)
      \<and> (case lock_timestamp strptime (strip raw) of
           None \<Rightarrow> False
         | Some t \<Rightarrow> cur_timestamp - t < 24 * 60))"

definition is_record :: "pystr \<Rightarrow> pystr \<Rightarrow> pystr \<Rightarrow> pystr \<Rightarrow> bool" where
  "is_record raw owner stamp kind =
     (strip raw = owner @ [46] @ stamp @ [46] @ kind \<and> 46 \<notin> set owner \<and> 46 \<notin> set stamp)"

text \<open>
  \<open>remove_lock\<close> rewrites the ledger: stripped lines that are empty, start with \<open>lock\<close>
  or start with \<open>new_lock\<close> are dropped, then \<open>new_lock\<close> is appended. Opening a missing
  ledger in mode \<open>r+\<close> raises.
\<close>

definition kept_line :: "pystr \<Rightarrow> pystr option \<Rightarrow> pystr \<Rightarrow> bool" where
  "kept_line lock new_lock raw =
     (let line = strip raw in
      \<not> (line = [] \<or> startswith line lock)
      \<and> \<not> (case new_lock of None \<Rightarrow> False | Some n \<Rightarrow> startswith line n))"

definition remove_lock :: "pystr option \<Rightarrow> pystr \<Rightarrow> pystr option \<Rightarrow> error + pystr" where
  "remove_lock ledger lock new_lock =
     (case ledger of
        None \<Rightarrow> Inl FileNotFoundError
      | Some content \<Rightarrow>
          Inr (concat (map (\<lambda>raw. strip raw @ [10])
                         (filter (kept_line lock new_lock) (py_lines content)))
               @ (case new_lock of None \<Rightarrow> [] | Some n \<Rightarrow> n @ [10])))"

section \<open>\<open>cleanup\<close>\<close>

datatype cleanup_outcome = Refused | Deleted

text \<open>
  \<open>cleanup\<close> asks \<open>has_locks\<close> with \<open>wait_write_lock=True\<close> and removes the tree when
  neither flag is set. \<open>tree_exists\<close> says whether the target directory is there when
  \<open>shutil.rmtree\<close> runs (it raises otherwise). The sleeps of the query are returned with
  the outcome.
\<close>

definition cleanup ::
  "(pystr \<Rightarrow> int option) \<Rightarrow> pystr \<Rightarrow> (nat \<Rightarrow> error + pystr) \<Rightarrow> bool \<Rightarrow> pystr option
     \<Rightarrow> (error + cleanup_outcome \<times> nat list) option" where
  "cleanup strptime timestamp rd tree_exists prev_lock =
     (case has_locks strptime timestamp rd prev_lock True of
        None \<Rightarrow> None
      | Some (Inl e) \<Rightarrow> Some (Inl e)
      | Some (Inr st) \<Rightarrow>
          if have_read_locks st \<or> have_write_locks st then Some (Inr (Refused, slept st))
          else if tree_exists then Some (Inr (Deleted, slept st))
          else Some (Inl FileNotFoundError))"

section \<open>A parser for the timestamps the script writes\<close>

text \<open>
  The script prints its timestamps with \<open>strftime("%Y%m%d%H%M")\<close>: twelve ASCII digits.
  \<open>strptime_fixed\<close> reads exactly such a string and returns the minutes since the start
  of year 1 of the proleptic Gregorian calendar (the day number is \<open>date.toordinal\<close>).
  It stands for the \<open>strptime\<close> parameter only where a concrete ledger with such
  timestamps is evaluated; \<open>datetime.strptime\<close> itself also reads some other strings
  (shorter fields), which no statement below relies on.
\<close>

definition digit_of :: "nat \<Rightarrow> nat option" where
  "digit_of n = (if 48 \<le> n \<and> n \<le> 57 then Some (n - 48) else None)"

fun decimal_acc :: "nat \<Rightarrow> pystr \<Rightarrow> nat option" where
  "decimal_acc acc [] = Some acc"
| "decimal_acc acc (c # cs) =
     (case digit_of c of None \<Rightarrow> None | Some d \<Rightarrow> decimal_acc (10 * acc + d) cs)"

definition decimal :: "pystr \<Rightarrow> nat option" where
  "decimal s = (if s = [] then None else decimal_acc 0 s)"

definition is_leap :: "int \<Rightarrow> bool" where
  "is_leap y = (y mod 4 = 0 \<and> (y mod 100 \<noteq> 0 \<or> y mod 400 = 0))"

definition days_in_month :: "int \<Rightarrow> nat \<Rightarrow> int" where
  "days_in_month y m =
     (if m = 2 then (if is_leap y then 29 else 28)
      else if m = 4 \<or> m = 6 \<or> m = 9 \<or> m = 11 then 30 else 31)"

definition days_before_year :: "int \<Rightarrow> int" where
  "days_before_year y = (y - 1) * 365 + (y - 1) div 4 - (y - 1) div 100 + (y - 1) div 400"

definition days_before_month :: "int \<Rightarrow> nat \<Rightarrow> int" where
  "days_before_month y m = sum_list (map (days_in_month y) [1..<m])"

definition strptime_fixed :: "pystr \<Rightarrow> int option" where
  "strptime_fixed s =
     (if length s \<noteq> 12 then None
      else
        (case (decimal (take 4 s), decimal (take 2 (drop 4 s)), decimal (take 2 (drop 6 s)),
               decimal (take 2 (drop 8 s)), decimal (take 2 (drop 10 s))) of
           (Some y, Some m, Some d, Some hh, Some mm) \<Rightarrow>
             if 1 \<le> y \<and> 1 \<le> m \<and> m \<le> 12 \<and> 1 \<le> d \<and> int d \<le> days_in_month (int y) m
                \<and> hh < 24 \<and> mm < 60
             then Some (((days_before_year (int y) + days_before_month (int y) m + int d) * 24
                         + int hh) * 60 + int mm)
             else None
         | _ \<Rightarrow> None))"

section \<open>\<open>copy_datasets\<close>\<close>

text \<open>
  The target directory holds, at a path, a regular file or a symbolic link that resolves
  to a file of the source directory (so \<open>os.path.exists\<close> and \<open>os.path.isfile\<close>, which
  follow links, hold for both). Directories and links that do not resolve at a catalog
  path are not in this model of the target.

  Sizes and the budget are real numbers. The sizes are the whole block counts that
  \<open>du --block-size=1G\<close> prints, on which the float additions and comparisons of the
  script are exact below \<open>2 ^ 53\<close>; a budget that is not a number is not modelled.
\<close>

datatype entry = RegularFile | Symlink

datatype event = Linking string | Checking string | Copying string

text \<open>
  What the run reads and cannot change: the parser and the timestamp of the module, the
  first-level keys of each HDF5 file of the source (\<open>None\<close>: the file cannot be opened),
  the size of each source file as \<open>du\<close> reports it (\<open>None\<close>: \<open>du\<close> fails), the size of the
  target directory at the start, and two oracles for the worker pool: whether the
  \<open>rsync\<close> of the \<open>j\<close>-th submitted job succeeds, and which jobs (by number, in this
  order) finish just before the \<open>i\<close>-th file is looked at.
\<close>

record env =
  strptime :: "pystr \<Rightarrow> int option"
  timestamp :: pystr
  h5_keys :: "string \<Rightarrow> string list option"
  du :: "string \<Rightarrow> real option"
  du_target :: real
  rsync_ok :: "nat \<Rightarrow> bool"
  sched :: "nat \<Rightarrow> nat list"

text \<open>
  The state of a run: the ledger file, the entries of the target directory, \<open>cur_gb\<close>,
  the jobs given to the executor in submission order (\<open>futures\<close>; a job is the pair
  \<open>(fn_src, fn_tgt)\<close> passed to \<open>cp\<close>), the numbers of the jobs still running, the count
  of files looked at, the lines printed by the planner, the sleeps of the lock query,
  and the exception that ended the run, if any.
\<close>

record world =
  ledger :: "pystr option"
  tgt :: "string \<Rightarrow> entry option"
  cur_gb :: real
  futures :: "(string \<times> string) list"
  pending :: "nat list"
  visits :: nat
  out :: "event list"
  waited :: "nat list"
  err :: "error option"

text \<open>
  \<open>cp\<close> in a worker: \<open>rsync\<close> leaves a regular file at the target; when it fails the
  target is removed if present and linked instead. Either way the job is done. The
  link of the fallback is taken to succeed on the path just cleared; a worker whose
  fallback fails too (its exception is dropped by the pool) is not modelled.
\<close>

definition complete_job :: "env \<Rightarrow> world \<Rightarrow> nat \<Rightarrow> world" where
  "complete_job e w j =
     (if j \<in> set (pending w) \<and> j < length (futures w) then
        w\<lparr>tgt := (tgt w)(snd (futures w ! j) \<mapsto> (if rsync_ok e j then RegularFile else Symlink)),
          pending := removeAll j (pending w)\<rparr>
      else w)"

definition run_sched :: "env \<Rightarrow> world \<Rightarrow> world" where
  "run_sched e w = (foldl (complete_job e) w (sched e (visits w)))\<lparr>visits := Suc (visits w)\<rparr>"

definition submit :: "string \<Rightarrow> string \<Rightarrow> world \<Rightarrow> world" where
  "submit fn_src fn_tgt w =
     w\<lparr>futures := futures w @ [(fn_src, fn_tgt)],
       pending := pending w @ [length (futures w)]\<rparr>"

text \<open>\<open>ln -s\<close> fails when the target path is taken.\<close>

definition ln :: "string \<Rightarrow> string \<Rightarrow> world \<Rightarrow> world" where
  "ln fn_src fn_tgt w =
     (if tgt w fn_tgt \<noteq> None then w\<lparr>err := Some CalledProcessError\<rparr>
      else w\<lparr>tgt := (tgt w)(fn_tgt \<mapsto> Symlink)\<rparr>)"

definition path_exists :: "world \<Rightarrow> string \<Rightarrow> bool" where
  "path_exists w p = (tgt w p \<noteq> None)"

definition isfile :: "world \<Rightarrow> string \<Rightarrow> bool" where
  "isfile w p = (tgt w p \<noteq> None)"

definition islink :: "world \<Rightarrow> string \<Rightarrow> bool" where
  "islink w p = (tgt w p = Some Symlink)"

definition os_remove :: "string \<Rightarrow> world \<Rightarrow> world" where
  "os_remove p w = w\<lparr>tgt := (tgt w)(p := None)\<rparr>"

text \<open>The three statements that end the \<open>else\<close> branch: print, add the size, submit.\<close>

definition start_copy :: "string \<Rightarrow> string \<Rightarrow> real \<Rightarrow> world \<Rightarrow> world" where
  "start_copy fn_src fn_tgt new_gb w =
     submit fn_src fn_tgt (w\<lparr>out := out w @ [Copying fn_src], cur_gb := cur_gb w + new_gb\<rparr>)"

text \<open>
  The body of the innermost loop of \<open>copy_datasets\<close>, for one file name. The jobs that
  the oracle lets finish are done first; the tests on the target path see their effect.
\<close>

definition visit :: "env \<Rightarrow> string \<Rightarrow> string \<Rightarrow> real \<Rightarrow> bool \<Rightarrow> string \<Rightarrow> world \<Rightarrow> world" where
  "visit e src_dir target_dir max_gb have_read fn w0 =
     (let w = run_sched e w0;
          fn_src = path_join src_dir fn;
          fn_tgt = path_join target_dir fn
      in case du e fn_src of
           None \<Rightarrow> w\<lparr>err := Some CalledProcessError\<rparr>
         | Some new_gb \<Rightarrow>
             if cur_gb w + new_gb > max_gb then
               (if \<not> path_exists w fn_tgt
                  then ln fn_src fn_tgt (w\<lparr>out := out w @ [Linking fn_src]\<rparr>)
                else if \<not> have_read \<and> isfile w fn_tgt \<and> \<not> islink w fn_tgt
                  then submit fn_src fn_tgt (w\<lparr>out := out w @ [Checking fn_tgt]\<rparr>)
                else w)
             else
               (if islink w fn_tgt \<and> \<not> have_read
                  then start_copy fn_src fn_tgt new_gb (os_remove fn_tgt w)
                else if have_read \<and> isfile w fn_tgt then w
                else start_copy fn_src fn_tgt new_gb w))"

text \<open>The \<open>for fn, _ in datasets[dstype]\<close> loop; an exception ends it.\<close>

fun visit_all ::
  "env \<Rightarrow> string \<Rightarrow> string \<Rightarrow> real \<Rightarrow> bool \<Rightarrow> string list \<Rightarrow> world \<Rightarrow> world" where
  "visit_all e src_dir target_dir max_gb have_read [] w = w"
| "visit_all e src_dir target_dir max_gb have_read (fn # fns) w =
     (if err w \<noteq> None then w
      else visit_all e src_dir target_dir max_gb have_read fns
             (visit e src_dir target_dir max_gb have_read fn w))"

text \<open>
  \<open>list(h5py.File(path).keys())[0]\<close>, and the grouping loop that fills the
  \<open>DefaultDict(list)\<close>; the dictionary is an association list in insertion order.
\<close>

definition dstype_of :: "env \<Rightarrow> string \<Rightarrow> error + string" where
  "dstype_of e path =
     (case h5_keys e path of
        None \<Rightarrow> Inl OSError
      | Some [] \<Rightarrow> Inl IndexError
      | Some (k # _) \<Rightarrow> Inr k)"

fun dd_append :: "(string \<times> 'a list) list \<Rightarrow> string \<Rightarrow> 'a \<Rightarrow> (string \<times> 'a list) list" where
  "dd_append [] k v = [(k, [v])]"
| "dd_append ((k', vs) # rest) k v =
     (if k' = k then (k', vs @ [v]) # rest else (k', vs) # dd_append rest k v)"

definition dd_get :: "(string \<times> 'a list) list \<Rightarrow> string \<Rightarrow> 'a list" where
  "dd_get d k = (case map_of d k of None \<Rightarrow> [] | Some vs \<Rightarrow> vs)"

fun group_entries ::
  "env \<Rightarrow> string \<Rightarrow> (string \<times> (string \<times> real) list) list \<Rightarrow> (string \<times> real) list
     \<Rightarrow> error + (string \<times> (string \<times> real) list) list" where
  "group_entries e src_dir datasets [] = Inr datasets"
| "group_entries e src_dir datasets ((fn, factor) # entries) =
     (case dstype_of e (path_join src_dir fn) of
        Inl x \<Rightarrow> Inl x
      | Inr dstype \<Rightarrow> group_entries e src_dir (dd_append datasets dstype (fn, factor)) entries)"

text \<open>
  \<open>sorted(xs, key=lambda e: e[1], reverse=True)\<close>: a stable sort by descending key, which
  CPython computes as reverse, stable ascending sort, reverse.
\<close>

definition sorted_desc :: "(string \<times> real) list \<Rightarrow> (string \<times> real) list" where
  "sorted_desc xs = rev (sort_key snd (rev xs))"

text \<open>
  One iteration of \<open>for split in ("train", "valid", "test")\<close>. The catalog \<open>cfg\<close> gives
  the entries of a split, or \<open>None\<close> when the key is missing.
\<close>

definition dstypes :: "string list" where
  "dstypes = [''noise'', ''speech'', ''rir'']"

definition plan_split ::
  "env \<Rightarrow> string \<Rightarrow> string \<Rightarrow> real \<Rightarrow> bool \<Rightarrow> (string \<Rightarrow> (string \<times> real) list option)
     \<Rightarrow> world \<Rightarrow> string \<Rightarrow> world" where
  "plan_split e src_dir target_dir max_gb have_read cfg w split =
     (if err w \<noteq> None then w
      else
        (case cfg split of
           None \<Rightarrow> w\<lparr>err := Some KeyError\<rparr>
         | Some entries \<Rightarrow>
             (case group_entries e src_dir [] entries of
                Inl x \<Rightarrow> w\<lparr>err := Some x\<rparr>
              | Inr datasets \<Rightarrow>
                  foldl (\<lambda>w' dstype.
                           visit_all e src_dir target_dir max_gb have_read
                             (map fst (sorted_desc (dd_get datasets dstype))) w')
                        w dstypes)))"

definition splits :: "string list" where
  "splits = [''train'', ''valid'', ''test'']"

text \<open>
  \<open>copy_datasets\<close>. The run is taken in isolation: nobody else writes the ledger while
  the lock query waits, so every read of the query finds the ledger \<open>led\<close> the run
  started with. \<open>fs\<close> is the target directory at the start and \<open>cfg\<close> the loaded catalog.
  After the three splits, \<open>as_completed\<close> returns when every job is done: those the
  oracle names first, then the rest. An exception leaves the state as it was when
  raised.
\<close>

definition lock_str :: "pystr option \<Rightarrow> pystr" where
  "lock_str lock = (case lock of None \<Rightarrow> str ''None'' | Some l \<Rightarrow> l)"

definition write_record :: "pystr option \<Rightarrow> pystr \<Rightarrow> pystr" where
  "write_record lock ts = lock_str lock @ str ''.'' @ ts @ str ''.write''"

definition read_record :: "pystr \<Rightarrow> pystr \<Rightarrow> pystr" where
  "read_record l ts = l @ str ''.'' @ ts @ str ''.read''"

text \<open>What reading a ledger that nobody else changes yields.\<close>

definition read_of :: "pystr option \<Rightarrow> nat \<Rightarrow> error + pystr" where
  "read_of led k = (case led of None \<Rightarrow> Inl FileNotFoundError | Some c \<Rightarrow> Inr c)"

text \<open>The state before the first split: nothing printed, no job, \<open>cur_gb = du(target_dir)\<close>.\<close>

definition initial_world :: "env \<Rightarrow> pystr option \<Rightarrow> (string \<Rightarrow> entry option) \<Rightarrow> world" where
  "initial_world e led fs =
     \<lparr>ledger = led, tgt = fs, cur_gb = du_target e, futures = [], pending = [],
      visits = 0, out = [], waited = [], err = None\<rparr>"

text \<open>\<open>open(lock_f, "a+").write(f"\n{lock}.{timestamp}.write")\<close>: the file is created if missing.\<close>

definition add_write_record :: "pystr option \<Rightarrow> pystr \<Rightarrow> world \<Rightarrow> world" where
  "add_write_record lock ts w =
     w\<lparr>ledger := Some ((case ledger w of None \<Rightarrow> [] | Some c \<Rightarrow> c)
                       @ [10] @ write_record lock ts)\<rparr>"

definition plan_all ::
  "env \<Rightarrow> string \<Rightarrow> string \<Rightarrow> real \<Rightarrow> bool \<Rightarrow> (string \<Rightarrow> (string \<times> real) list option)
     \<Rightarrow> world \<Rightarrow> world" where
  "plan_all e src_dir target_dir max_gb have_read cfg w =
     foldl (plan_split e src_dir target_dir max_gb have_read cfg) w splits"

definition as_completed :: "env \<Rightarrow> world \<Rightarrow> world" where
  "as_completed e w = foldl (complete_job e) w (sched e (visits w) @ pending w)"

text \<open>The last two lines of \<open>copy_datasets\<close>: with a lock id, the write record is replaced by a read record.\<close>

definition rotate_lock :: "env \<Rightarrow> pystr option \<Rightarrow> world \<Rightarrow> world" where
  "rotate_lock e lock w =
     (case lock of
        None \<Rightarrow> w
      | Some l \<Rightarrow>
          (case remove_lock (ledger w) l (Some (read_record l (timestamp e))) of
             Inl x \<Rightarrow> w\<lparr>err := Some x\<rparr>
           | Inr content \<Rightarrow> w\<lparr>ledger := Some content\<rparr>))"

definition copy_datasets ::
  "env \<Rightarrow> string \<Rightarrow> string \<Rightarrow> (string \<Rightarrow> (string \<times> real) list option) \<Rightarrow> real \<Rightarrow> pystr option
     \<Rightarrow> pystr option \<Rightarrow> (string \<Rightarrow> entry option) \<Rightarrow> world option" where
  "copy_datasets e src_dir target_dir cfg max_gb lock led fs =
     (case has_locks (strptime e) (timestamp e) (read_of led) lock True of
        None \<Rightarrow> None
      | Some (Inl x) \<Rightarrow> Some ((initial_world e led fs)\<lparr>err := Some x\<rparr>)
      | Some (Inr st) \<Rightarrow>
          (let w0 = add_write_record lock (timestamp e)
                      ((initial_world e led fs)\<lparr>waited := slept st\<rparr>);
               w1 = plan_all e src_dir target_dir max_gb (have_read_locks st) cfg w0
           in if err w1 \<noteq> None then Some w1
              else Some (rotate_lock e lock (as_completed e w1))))"

text \<open>
  Vocabulary for the properties of the planner. The files with a \<open>Copy\<close> decision are
  those of the \<open>copying\<close> lines printed, in order; \<open>copied_gb\<close> adds up their sizes as
  \<open>du\<close> reports them. \<open>job\<close> is the job the planner submits for a file name.
  \<open>split_files\<close> lists the file names of a split in the order the planner looks at
  them, and \<open>catalog_files\<close> does so for the three splits in turn.
\<close>

definition copied :: "event list \<Rightarrow> string list" where
  "copied evs = concat (map (\<lambda>ev. case ev of Copying p \<Rightarrow> [p] | _ \<Rightarrow> []) evs)"

definition size_of :: "env \<Rightarrow> string \<Rightarrow> real" where
  "size_of e p = (case du e p of None \<Rightarrow> 0 | Some g \<Rightarrow> g)"

definition copied_gb :: "env \<Rightarrow> event list \<Rightarrow> real" where
  "copied_gb e evs = sum_list (map (size_of e) (copied evs))"

definition job :: "string \<Rightarrow> string \<Rightarrow> string \<Rightarrow> string \<times> string" where
  "job src_dir target_dir fn = (path_join src_dir fn, path_join target_dir fn)"

definition split_files :: "env \<Rightarrow> string \<Rightarrow> (string \<times> real) list \<Rightarrow> string list" where
  "split_files e src_dir entries =
     (case group_entries e src_dir [] entries of
        Inl _ \<Rightarrow> []
      | Inr datasets \<Rightarrow>
          concat (map (\<lambda>dstype. map fst (sorted_desc (dd_get datasets dstype))) dstypes))"

definition catalog_files ::
  "env \<Rightarrow> string \<Rightarrow> (string \<Rightarrow> (string \<times> real) list option) \<Rightarrow> string list" where
  "catalog_files e src_dir cfg =
     concat (map (\<lambda>split. case cfg split of None \<Rightarrow> [] | Some entries \<Rightarrow> split_files e src_dir entries)
               splits)"

text \<open>
  The rank of a source file in the order \<open>("noise", "speech", "rir")\<close> of the innermost
  \<open>for dstype\<close> loop, by its first HDF5 key.
\<close>

definition prio :: "env \<Rightarrow> string \<Rightarrow> nat" where
  "prio e p =
     (case dstype_of e p of
        Inl _ \<Rightarrow> 3
      | Inr d \<Rightarrow> if d = ''noise'' then 0 else if d = ''speech'' then 1 else 2)"

text \<open>
  The invariant of the running total: it is the size of the target directory at the
  start plus the sizes of the files copied so far, and once a file has been copied it
  is within the budget.
\<close>

definition quota_ok :: "env \<Rightarrow> real \<Rightarrow> world \<Rightarrow> bool" where
  "quota_ok e max_gb w =
     (cur_gb w = du_target e + copied_gb e (out w)
      \<and> (copied (out w) = [] \<or> cur_gb w \<le> max_gb))"

text \<open>
  Bookkeeping of the executor: every running job is one of \<open>futures\<close>; the paths that
  are, or will be once the running jobs are done, entries of the target directory.
\<close>

definition pending_ok :: "world \<Rightarrow> bool" where
  "pending_ok w = list_all (\<lambda>j. j < length (futures w)) (pending w)"

definition covered :: "world \<Rightarrow> string set" where
  "covered w = dom (tgt w) \<union> (\<lambda>j. snd (futures w ! j)) ` set (pending w)"

text \<open>
  A split can be planned without an exception: the catalog has it, every file of it
  opens and has a key, and \<open>du\<close> succeeds on every file the planner looks at.
\<close>

definition plannable :: "env \<Rightarrow> string \<Rightarrow> (string \<Rightarrow> (string \<times> real) list option) \<Rightarrow> string \<Rightarrow> bool" where
  "plannable e s cfg split =
     (case cfg split of
        None \<Rightarrow> False
      | Some entries \<Rightarrow>
          (case group_entries e s [] entries of
             Inl _ \<Rightarrow> False
           | Inr _ \<Rightarrow> list_all (\<lambda>fn. du e (path_join s fn) \<noteq> None) (split_files e s entries)))"

section \<open>The example of the specification\<close>

text \<open>
  The end-to-end scenario of the specification: the catalog
  \<open>{train: [["noiseA.bin", 2.0], ["speechA.bin", 5.0]]}\<close> (the other splits empty), both
  files of 3 GB, an empty target directory, every \<open>rsync\<close> succeeding and every job
  finishing only at the end.
\<close>

definition example_env :: env where
  "example_env =
     \<lparr>strptime = strptime_fixed, timestamp = str ''202611031402'',
      h5_keys = (\<lambda>p. if p = ''/s/noiseA.bin'' then Some [''noise'']
                      else if p = ''/s/speechA.bin'' then Some [''speech''] else None),
      du = (\<lambda>p. if p = ''/s/noiseA.bin'' \<or> p = ''/s/speechA.bin'' then Some 3 else None),
      du_target = 0, rsync_ok = (\<lambda>_. True), sched = (\<lambda>_. [])\<rparr>"

definition example_cfg :: "string \<Rightarrow> (string \<times> real) list option" where
  "example_cfg split =
     (if split = ''train'' then Some [(''noiseA.bin'', 2), (''speechA.bin'', 5)] else Some [])"

text \<open>
  Two more catalogs over the same two files: one that lists the speech file first, and
  one that lists the noise file twice.
\<close>

definition speech_first_cfg :: "string \<Rightarrow> (string \<times> real) list option" where
  "speech_first_cfg split =
     (if split = ''train'' then Some [(''speechA.bin'', 5), (''noiseA.bin'', 2)] else Some [])"

definition twice_cfg :: "string \<Rightarrow> (string \<times> real) list option" where
  "twice_cfg split =
     (if split = ''train'' then Some [(''noiseA.bin'', 2), (''noiseA.bin'', 2)] else Some [])"

section \<open>Facts about the wait loop and the lock query\<close>

text \<open>One unfolding of the loop, by the branch taken.\<close>

lemma wait_loop_gone: "rd k = Inl x \<Longrightarrow> wait_loop rd lock w tries k hw sl = Some (Inl x)"
  by (subst wait_loop.simps) simp

lemma wait_loop_clear:
  "rd k = Inr c \<Longrightarrow> \<not> list_ex (foreign_write lock) (py_lines c)
   \<Longrightarrow> wait_loop rd lock w tries k hw sl = Some (Inr (hw, Suc k, sl))"
  by (subst wait_loop.simps) simp

lemma wait_loop_nowait:
  "rd k = Inr c \<Longrightarrow> list_ex (foreign_write lock) (py_lines c)
   \<Longrightarrow> wait_loop rd lock False tries k hw sl = Some (Inr (True, Suc k, sl))"
  by (subst wait_loop.simps) simp

lemma wait_loop_cap:
  "rd k = Inr c \<Longrightarrow> list_ex (foreign_write lock) (py_lines c) \<Longrightarrow> 2 ^ 11 < tries * 2
   \<Longrightarrow> wait_loop rd lock True tries k hw sl = Some (Inr (True, Suc k, sl @ [tries]))"
  by (subst wait_loop.simps) simp

lemma wait_loop_retry:
  "rd k = Inr c \<Longrightarrow> list_ex (foreign_write lock) (py_lines c) \<Longrightarrow> \<not> 2 ^ 11 < tries * 2
   \<Longrightarrow> wait_loop rd lock True tries k hw sl
       = wait_loop rd lock True (tries * 2) (Suc k) True (sl @ [tries])"
  by (subst wait_loop.simps) simp

lemma wait_loop_total:
  "0 < tries \<Longrightarrow> \<exists>r. wait_loop rd lock w tries k hw sl = Some r"
proof (induction "2049 - tries" arbitrary: tries k hw sl rule: less_induct)
  case less
  show ?case
  proof (cases "rd k")
    case (Inl x)
    then show ?thesis by (simp add: wait_loop_gone)
  next
    case (Inr c)
    show ?thesis
    proof (cases "list_ex (foreign_write lock) (py_lines c)")
      case False
      with Inr show ?thesis by (simp add: wait_loop_clear)
    next
      case True
      show ?thesis
      proof (cases w)
        case False
        with Inr True show ?thesis by (simp add: wait_loop_nowait)
      next
        case w: True
        show ?thesis
        proof (cases "2 ^ 11 < tries * 2")
          case True
          with Inr \<open>list_ex (foreign_write lock) (py_lines c)\<close> w show ?thesis
            by (simp add: wait_loop_cap)
        next
          case False
          with less.prems have "2049 - tries * 2 < 2049 - tries" "0 < tries * 2" by simp_all
          from less.hyps [OF this] obtain r where
            "wait_loop rd lock w (tries * 2) (Suc k) True (sl @ [tries]) = Some r" by blast
          with Inr True w False show ?thesis by (simp add: wait_loop_retry)
        qed
      qed
    qed
  qed
qed

text \<open>
  On a ledger that does not change, the query is a function of the ledger: the flags are
  the two scans, and a caller that waits sleeps twelve times when a foreign write lock
  is there.
\<close>

lemma wait_loop_static:
  assumes "list_ex (foreign_write lock) (py_lines c)" "n \<le> 11"
  shows "wait_loop (\<lambda>_. Inr c) lock True (2 ^ n) k hw sl
         = Some (Inr (True, k + (12 - n), sl @ map (\<lambda>i. 2 ^ i) [n..<12]))"
  using assms(2)
proof (induction "11 - n" arbitrary: n k hw sl)
  case 0
  then have n: "n = 11" by simp
  have "(2::nat) ^ 11 < 2 ^ n * 2" by (simp add: n)
  from wait_loop_cap [OF refl assms(1) this]
  show ?case by (simp add: n)
next
  case (Suc d)
  then have n: "n \<le> 10" and d: "d = 11 - Suc n" by simp_all
  have "(2::nat) ^ n \<le> 2 ^ 10" using n by (rule power_increasing) simp
  then have nc: "\<not> (2::nat) ^ 11 < 2 ^ n * 2" by simp
  have up: "[n..<12] = n # [Suc n..<12]" using n by (simp add: upt_rec)
  have "wait_loop (\<lambda>_. Inr c) lock True (2 ^ n) k hw sl
        = wait_loop (\<lambda>_. Inr c) lock True (2 ^ Suc n) (Suc k) True (sl @ [2 ^ n])"
    using wait_loop_retry [OF refl assms(1) nc] by (simp add: mult.commute)
  also have "\<dots> = Some (Inr (True, Suc k + (12 - Suc n), (sl @ [2 ^ n]) @ map (\<lambda>i. 2 ^ i) [Suc n..<12]))"
    using Suc.hyps(1) [OF d] n by simp
  finally show ?case using n by (simp add: up)
qed

lemma has_locks_static:
  "has_locks sp ts (\<lambda>_. Inr c) lock w =
     Some (case sp ts of
             None \<Rightarrow> Inl ValueError
           | Some cur \<Rightarrow>
               Inr \<lparr>have_read_locks = scan_read_locks sp cur lock (py_lines c),
                    have_write_locks = list_ex (foreign_write lock) (py_lines c),
                    slept = (if w \<and> list_ex (foreign_write lock) (py_lines c)
                             then map (\<lambda>i. 2 ^ i) [0..<12] else [])\<rparr>)"
proof (cases "list_ex (foreign_write lock) (py_lines c)")
  case False
  then show ?thesis
    by (simp add: has_locks_def wait_loop_clear split: option.splits)
next
  case True
  show ?thesis
  proof (cases w)
    case False
    with True show ?thesis
      by (simp add: has_locks_def wait_loop_nowait split: option.splits)
  next
    case w: True
    from wait_loop_static [OF True, of 0 0 False "[]"]
    show ?thesis using True w
      by (simp add: has_locks_def split: option.splits)
  qed
qed

lemma has_locks_absent:
  "has_locks sp ts (\<lambda>_. Inl FileNotFoundError) lock w
   = Some (Inr \<lparr>have_read_locks = False, have_write_locks = False, slept = []\<rparr>)"
  by (simp add: has_locks_def)

text \<open>
  The second loop sets its flag exactly when some line is recent and not the caller's;
  \<open>cleanup\<close> on a ledger that does not change follows.
\<close>

lemma scan_read_locks_iff:
  "scan_read_locks sp cur lock ls = list_ex (recent_foreign sp cur lock) ls"
  by (induction ls) (auto simp: recent_foreign_def Let_def split: option.splits)

lemma cleanup_static:
  "cleanup sp ts (\<lambda>_. Inr c) tree lock =
     Some (case sp ts of
             None \<Rightarrow> Inl ValueError
           | Some cur \<Rightarrow>
               if list_ex (foreign_write lock) (py_lines c)
                 then Inr (Refused, map (\<lambda>i. 2 ^ i) [0..<12])
               else if list_ex (recent_foreign sp cur lock) (py_lines c) then Inr (Refused, [])
               else if tree then Inr (Deleted, [])
               else Inl FileNotFoundError)"
  by (simp add: cleanup_def has_locks_static scan_read_locks_iff split: option.split)

text \<open>The query of a caller without owner id, whatever the reads yield.\<close>

lemma has_locks_no_owner:
  "has_locks sp ts rd None w =
     Some (if rd 0 = Inl FileNotFoundError
             then Inr \<lparr>have_read_locks = False, have_write_locks = False, slept = []\<rparr>
           else
             (case rd 0 of
                Inl x \<Rightarrow> Inl x
              | Inr _ \<Rightarrow>
                  (case sp ts of
                     None \<Rightarrow> Inl ValueError
                   | Some cur \<Rightarrow>
                       (case rd 1 of
                          Inl x \<Rightarrow> Inl x
                        | Inr c \<Rightarrow>
                            Inr \<lparr>have_read_locks = scan_read_locks sp cur None (py_lines c),
                                 have_write_locks = False, slept = []\<rparr>))))"
proof -
  have nf: "\<not> foreign_write None l" for l
    by (simp add: foreign_write_def)
  have 1: "wait_loop rd None w 1 0 False [] = Some (Inr (False, 1, []))" if "rd 0 = Inr c0" for c0
    using wait_loop_clear [where rd = rd and k = 0 and lock = None, OF that] nf
    by (simp add: list_ex_iff)
  have 2: "wait_loop rd None w 1 0 False [] = Some (Inl x)" if "rd 0 = Inl x" for x
    using that by (rule wait_loop_gone)
  show ?thesis
    using 1 2 by (cases "rd 0") (simp_all add: has_locks_def split: option.split sum.split)
qed

text \<open>
  A record with an owner id and a timestamp free of dots has its timestamp in the second
  field, where the second loop looks for it; a blank line is skipped by both loops.
\<close>

lemma split_on_field:
  "d \<notin> set xs \<Longrightarrow> split_on d acc (xs @ d # rest) = (rev acc @ xs) # split_on d [] rest"
  by (induction xs arbitrary: acc) auto

lemma split_on_Cons: "\<exists>f fs. split_on d acc xs = f # fs"
  by (induction xs arbitrary: acc) auto

lemma record_timestamp:
  assumes "is_record raw owner stamp kind"
  shows "lock_timestamp sp (strip raw) = sp stamp"
proof -
  from assms have s: "strip raw = owner @ 46 # stamp @ 46 # kind"
    and o: "46 \<notin> set owner" and t: "46 \<notin> set stamp"
    by (simp_all add: is_record_def)
  have "split_dot (strip raw) = owner # stamp # split_on 46 [] kind"
    unfolding s split_dot_def
    by (simp add: split_on_field [OF o] split_on_field [OF t])
  then show ?thesis
    by (simp add: lock_timestamp_def)
qed

lemma record_recent:
  assumes "is_record raw owner stamp kind" and "\<not> own_line lock raw"
    and "sp stamp = Some t" and "cur - t < 24 * 60"
  shows "recent_foreign sp cur lock raw"
  using assms(2-) by (simp add: recent_foreign_def own_line_def record_timestamp [OF assms(1)])



text \<open>The definitions that evaluate a query on a concrete ledger.\<close>

lemmas ledger_eval =
  str_def py_lines_def strip_def is_space_def startswith_def endswith_def
  foreign_write_def recent_foreign_def own_line_def is_record_def lock_timestamp_def split_dot_def
  strptime_fixed_def decimal_def digit_of_def days_in_month_def days_before_year_def
  days_before_month_def is_leap_def upt_rec suffix_to_prefix

section \<open>The lock ledger\<close>

text \<open>
  C2 (as the code has it). A caller without owner id never sees a foreign write lock:
  the condition of the wait loop needs \<open>lock is not None\<close>, so no line satisfies it, the
  flag \<open>have_write_locks\<close> stays false and the call never sleeps, whatever the ledger
  holds, however it changes between the two reads, and whether or not the caller asked
  to wait. The lines only count for the recent-activity flag, which is computed from
  the second read. A read that raises ends the call with that exception.
\<close>

theorem has_locks_anonymous:
  "\<not> foreign_write None line
   \<and> has_locks sp ts rd None w =
       Some (if rd 0 = Inl FileNotFoundError
               then Inr \<lparr>have_read_locks = False, have_write_locks = False, slept = []\<rparr>
             else
               (case rd 0 of
                  Inl x \<Rightarrow> Inl x
                | Inr _ \<Rightarrow>
                    (case sp ts of
                       None \<Rightarrow> Inl ValueError
                     | Some cur \<Rightarrow>
                         (case rd 1 of
                            Inl x \<Rightarrow> Inl x
                          | Inr c \<Rightarrow>
                              Inr \<lparr>have_read_locks = scan_read_locks sp cur None (py_lines c),
                                   have_write_locks = False, slept = []\<rparr>))))"
proof -
  have "\<not> foreign_write None line"
    by (simp add: foreign_write_def)
  then show ?thesis
    by (simp only: has_locks_no_owner simp_thms)
qed

text \<open>
  C2 fails as stated: on a ledger whose only line is a write record of \<open>job1\<close>, a caller
  without owner id gets \<open>have_write_locks = False\<close> (and the record, one minute old,
  counts as recent activity).
\<close>

theorem has_locks_anonymous_counterexample:
  "has_locks strptime_fixed (str ''202611031402'')
     (\<lambda>_. Inr (str ''job1.202611031401.write'')) None True
   = Some (Inr \<lparr>have_read_locks = True, have_write_locks = False, slept = []\<rparr>)"
  by (simp add: has_locks_static foreign_write_def py_lines_def strip_def is_space_def
      startswith_def endswith_def lock_timestamp_def split_dot_def
      str_def strptime_fixed_def decimal_def digit_of_def days_in_month_def days_before_year_def
      days_before_month_def is_leap_def upt_rec suffix_to_prefix)

text \<open>
  C10. Ownership is a prefix test on the line. Let \<open>X\<close> be a proper prefix of \<open>Y\<close>. A
  caller with owner id \<open>X\<close> takes every record of \<open>Y\<close> (a line that starts with \<open>Y.\<close>) for
  its own: the line is no foreign write lock and does not count as recent activity,
  whatever its kind and timestamp. So on a ledger that holds only records of \<open>Y\<close> the
  query of \<open>X\<close> returns both flags false without sleeping.
\<close>

theorem has_locks_prefix_owner:
  assumes "strict_prefix X Y"
  shows "(\<forall>l. startswith (strip l) (Y @ (str ''.''))
            \<longrightarrow> \<not> foreign_write (Some X) l \<and> \<not> recent_foreign sp cur (Some X) l)
    \<and> ((\<forall>l\<in>set (py_lines c). startswith (strip l) (Y @ (str ''.'')))
         \<longrightarrow> has_locks sp ts (\<lambda>_. Inr c) (Some X) w =
               Some (case sp ts of
                       None \<Rightarrow> Inl ValueError
                     | Some cur \<Rightarrow>
                         Inr \<lparr>have_read_locks = False, have_write_locks = False, slept = []\<rparr>))"
proof -
  have own: "startswith (strip l) X" if "startswith (strip l) (Y @ (str ''.''))" for l
  proof -
    from that have "prefix (Y @ (str ''.'')) (strip l)"
      by (simp add: startswith_def)
    moreover from assms have "prefix X (Y @ (str ''.''))"
      by (simp add: strict_prefix_def prefix_prefix)
    ultimately show ?thesis
      unfolding startswith_def by (rule prefix_order.trans [rotated])
  qed
  have line: "\<not> foreign_write (Some X) l \<and> \<not> recent_foreign sp' cur' (Some X) l"
    if "startswith (strip l) (Y @ (str ''.''))" for l sp' cur'
    using own [OF that] by (simp add: foreign_write_def recent_foreign_def)
  have "has_locks sp ts (\<lambda>_. Inr c) (Some X) w =
      Some (case sp ts of
              None \<Rightarrow> Inl ValueError
            | Some cur \<Rightarrow> Inr \<lparr>have_read_locks = False, have_write_locks = False, slept = []\<rparr>)"
    if "\<forall>l\<in>set (py_lines c). startswith (strip l) (Y @ (str ''.''))"
  proof -
    from that line have "\<not> list_ex (foreign_write (Some X)) (py_lines c)"
      and "\<not> list_ex (recent_foreign sp' cur' (Some X)) (py_lines c)" for sp' cur'
      by (auto simp: list_ex_iff)
    then show ?thesis
      by (simp add: has_locks_static scan_read_locks_iff split: option.split)
  qed
  with line show ?thesis by blast
qed

theorem has_locks_prefix_owner_witness:
  "strict_prefix (str ''job1'') (str ''job10'')
   \<and> has_locks strptime_fixed (str ''202611031402'')
       (\<lambda>_. Inr ((str ''job10.202611031401.write'') @ [10] @ (str ''job10.202611031300.read'')))
       (Some (str ''job1'')) True
     = Some (Inr \<lparr>have_read_locks = False, have_write_locks = False, slept = []\<rparr>)"
proof -
  let ?c = "(str ''job10.202611031401.write'') @ [10] @ (str ''job10.202611031300.read'')"
  have sp: "strict_prefix (str ''job1'') (str ''job10'')"
    by (simp add: str_def)
  have a: "\<forall>l\<in>set (py_lines ?c). startswith (strip l) ((str ''job10'') @ (str ''.''))"
    by (simp add: str_def py_lines_def strip_def is_space_def startswith_def)
  have t: "strptime_fixed (str ''202611031402'') = Some 1065489962"
    by (simp add: str_def strptime_fixed_def decimal_def digit_of_def days_in_month_def
        days_before_year_def days_before_month_def is_leap_def upt_rec)
  from has_locks_prefix_owner [OF sp, where c = ?c and sp = strptime_fixed
      and ts = "(str ''202611031402'')" and w = True] a
  have "has_locks strptime_fixed (str ''202611031402'') (\<lambda>_. Inr ?c) (Some (str ''job1'')) True
      = Some (case strptime_fixed (str ''202611031402'') of
                None \<Rightarrow> Inl ValueError
              | Some cur \<Rightarrow>
                  Inr \<lparr>have_read_locks = False, have_write_locks = False, slept = []\<rparr>)"
    by blast
  with sp t show ?thesis by simp
qed

section \<open>Cleanup\<close>

text \<open>
  C4 (as the code has it). \<open>cleanup\<close> queries the ledger with \<open>wait_write_lock=True\<close>.
  For a caller with an owner id: when a line that is a foreign write lock for it (a
  line ending in \<open>.write\<close> that does not start with the id) is in the ledger and stays
  there, \<open>cleanup\<close> goes through the whole back-off, twelve sleeps of 1, 2, 4, ..., 2048
  time units, and refuses only then; the refusal is a normal return. For a caller
  without owner id no line is a foreign write lock: \<open>cleanup\<close> never sleeps, whatever
  the reads yield, and it refuses at once when the ledger holds a write record (of an
  owner id without a dot) less than 24 hours old.
\<close>

theorem cleanup_waits_for_write_lock:
  assumes "sp ts = Some cur"
  shows "((\<exists>l\<in>set (py_lines c). foreign_write (Some k) l)
           \<longrightarrow> cleanup sp ts (\<lambda>_. Inr c) tree (Some k)
               = Some (Inr (Refused, map (\<lambda>i. 2 ^ i) [0..<12])))
    \<and> (\<forall>rd. \<exists>r. cleanup sp ts rd tree None = Some r
              \<and> (\<forall>outcome sl. r = Inr (outcome, sl) \<longrightarrow> sl = []))
    \<and> (\<forall>l owner stamp t.
          l \<in> set (py_lines c) \<and> is_record l owner stamp (str ''write'')
          \<and> sp stamp = Some t \<and> cur - t < 24 * 60
          \<longrightarrow> cleanup sp ts (\<lambda>_. Inr c) tree None = Some (Inr (Refused, [])))"
proof (intro conjI allI impI)
  assume "\<exists>l\<in>set (py_lines c). foreign_write (Some k) l"
  then have "list_ex (foreign_write (Some k)) (py_lines c)"
    by (simp add: list_ex_iff)
  then show "cleanup sp ts (\<lambda>_. Inr c) tree (Some k)
      = Some (Inr (Refused, map (\<lambda>i. 2 ^ i) [0..<12]))"
    using assms by (simp add: cleanup_static)
next
  fix rd
  obtain q where q: "has_locks sp ts rd None True = Some q"
    and s: "\<forall>st. q = Inr st \<longrightarrow> slept st = []"
    using has_locks_no_owner [of sp ts rd True]
    by (auto split: if_splits sum.splits option.splits)
  show "\<exists>r. cleanup sp ts rd tree None = Some r
          \<and> (\<forall>outcome sl. r = Inr (outcome, sl) \<longrightarrow> sl = [])"
    using q s by (cases q) (auto simp: cleanup_def)
next
  fix l owner stamp t
  assume a: "l \<in> set (py_lines c) \<and> is_record l owner stamp (str ''write'')
      \<and> sp stamp = Some t \<and> cur - t < 24 * 60"
  then have "recent_foreign sp cur None l"
    by (intro record_recent [where owner = owner and stamp = stamp and t = t
          and kind = "str ''write''"])
      (simp_all add: own_line_def)
  with a have "list_ex (recent_foreign sp cur None) (py_lines c)"
    by (auto simp: list_ex_iff)
  moreover have "\<not> list_ex (foreign_write None) (py_lines c)"
    by (simp add: list_ex_iff foreign_write_def)
  ultimately show "cleanup sp ts (\<lambda>_. Inr c) tree None = Some (Inr (Refused, []))"
    using assms by (simp add: cleanup_static)
qed

theorem cleanup_waits_for_write_lock_witness:
  "cleanup strptime_fixed (str ''202611031402'') (\<lambda>_. Inr (str ''job7.202611031330.write'')) True
     (Some (str ''job8''))
   = Some (Inr (Refused, [1, 2, 4, 8, 16, 32, 64, 128, 256, 512, 1024, 2048]))
   \<and> cleanup strptime_fixed (str ''202611031402'') (\<lambda>_. Inr (str ''job7.202611031330.write'')) True
       None
     = Some (Inr (Refused, []))"
proof -
  let ?c = "str ''job7.202611031330.write''"
  have ts: "strptime_fixed (str ''202611031402'') = Some 1065489962"
    by (simp add: ledger_eval)
  note w = cleanup_waits_for_write_lock [where sp = strptime_fixed
      and ts = "str ''202611031402''" and c = ?c and k = "str ''job8''" and tree = True, OF ts]
  have l: "py_lines ?c = [?c]"
    by (simp add: str_def py_lines_def)
  have f: "\<exists>l\<in>set (py_lines ?c). foreign_write (Some (str ''job8'')) l"
    unfolding l by (simp add: ledger_eval)
  have r: "?c \<in> set (py_lines ?c) \<and> is_record ?c (str ''job7'') (str ''202611031330'') (str ''write'')
      \<and> strptime_fixed (str ''202611031330'') = Some 1065489930
      \<and> (1065489962::int) - 1065489930 < 24 * 60"
    unfolding l by (simp add: ledger_eval)
  from w f have "cleanup strptime_fixed (str ''202611031402'') (\<lambda>_. Inr ?c) True (Some (str ''job8''))
      = Some (Inr (Refused, map (\<lambda>i. 2 ^ i) [0..<12]))"
    by blast
  moreover from w r have "cleanup strptime_fixed (str ''202611031402'') (\<lambda>_. Inr ?c) True None
      = Some (Inr (Refused, []))"
    by blast
  ultimately show ?thesis
    by (simp add: upt_rec)
qed

text \<open>
  C4 fails as stated: with the foreign write record of \<open>other\<close> in the ledger, \<open>cleanup\<close>
  called by \<open>me\<close> returns \<open>Refused\<close> after twelve sleeps, 4095 time units in all, not at
  once.
\<close>

theorem cleanup_immediate_counterexample:
  "cleanup strptime_fixed (str ''202611031402'') (\<lambda>_. Inr (str ''other.202611031401.write'')) True
     (Some (str ''me''))
   = Some (Inr (Refused, [1, 2, 4, 8, 16, 32, 64, 128, 256, 512, 1024, 2048]))
   \<and> sum_list [1, 2, 4, 8, 16, 32, 64, 128, 256, 512, 1024, 2048 :: nat] = 4095"
  by (simp add: cleanup_static ledger_eval)




section \<open>The back-off of the lock query\<close>

text \<open>
  The loop under a ledger that changes between reads: started as \<open>has_locks\<close> starts it
  (at read \<open>n\<close> with \<open>tries = 2 ^ n\<close>), it returns; it has then slept \<open>1, 2, ..., 2 ^ (m - 1)\<close>
  where \<open>m\<close> is the first read that found no foreign write lock, or 12.
\<close>

lemma sum_backoff: "sum_list (map (\<lambda>i. 2 ^ i) [0..<m]) + 1 = (2::nat) ^ m"
  by (induction m) simp_all

lemma wait_loop_shape:
  assumes "n \<le> 11" and "\<forall>i<n. blocked rd lock i"
  shows "\<exists>r. wait_loop rd lock True (2 ^ n) n hw (map (\<lambda>i. 2 ^ i) [0..<n]) = Some r \<and>
     (case r of
        Inl e \<Rightarrow> \<exists>m<12. rd m = Inl e
      | Inr (hw', k', sl') \<Rightarrow>
          \<exists>m. n \<le> m \<and> m \<le> 12 \<and> sl' = map (\<lambda>i. 2 ^ i) [0..<m] \<and> (\<forall>i<m. blocked rd lock i)
             \<and> (m < 12 \<longrightarrow> \<not> blocked rd lock m)
             \<and> k' = (if m = 12 then 12 else Suc m) \<and> hw' = (if m = n then hw else True))"
  using assms
proof (induction "11 - n" arbitrary: n hw)
  case 0
  then have n: "n = 11" by simp
  show ?case
  proof (cases "rd n")
    case (Inl x)
    then show ?thesis using n by (auto simp: wait_loop_gone intro!: exI [of _ 11])
  next
    case (Inr c)
    show ?thesis
    proof (cases "list_ex (foreign_write lock) (py_lines c)")
      case False
      then have "\<not> blocked rd lock n" by (simp add: blocked_def Inr)
      with Inr False "0.prems" show ?thesis
        by (auto simp: wait_loop_clear n intro!: exI [of _ 11])
    next
      case True
      then have b: "blocked rd lock 11" using Inr n by (simp add: blocked_def)
      have cap: "(2::nat) ^ 11 < 2 ^ n * 2" by (simp add: n)
      have e: "[0..<12] = [0..<11] @ [11::nat]"
        using upt_Suc_append [of 0 11] by simp
      from wait_loop_cap [where rd = rd and k = n and tries = "2 ^ n", OF Inr True cap]
      have "wait_loop rd lock True (2 ^ n) n hw (map (\<lambda>i. 2 ^ i) [0..<n])
            = Some (Inr (True, 12, map (\<lambda>i. 2 ^ i) [0..<12]))"
        by (simp add: n e)
      moreover have "\<forall>i<12. blocked rd lock i"
        using "0.prems"(2) b n by (auto simp: less_Suc_eq numeral_eq_Suc)
      ultimately show ?thesis
        using n by (auto intro!: exI [of _ 12])
    qed
  qed
next
  case (Suc d)
  then have n: "n \<le> 10" and d: "d = 11 - Suc n" by simp_all
  show ?case
  proof (cases "rd n")
    case (Inl x)
    then show ?thesis using n by (auto simp: wait_loop_gone intro!: exI [of _ n])
  next
    case (Inr c)
    show ?thesis
    proof (cases "list_ex (foreign_write lock) (py_lines c)")
      case False
      then have "\<not> blocked rd lock n" by (simp add: blocked_def Inr)
      with Inr False Suc.prems n show ?thesis
        by (auto simp: wait_loop_clear intro!: exI [of _ n])
    next
      case True
      then have b: "blocked rd lock n" using Inr by (simp add: blocked_def)
      have "(2::nat) ^ n \<le> 2 ^ 10" using n by (rule power_increasing) simp
      then have nc: "\<not> (2::nat) ^ 11 < 2 ^ n * 2" by simp
      have step: "wait_loop rd lock True (2 ^ n) n hw (map (\<lambda>i. 2 ^ i) [0..<n])
            = wait_loop rd lock True (2 ^ Suc n) (Suc n) True (map (\<lambda>i. 2 ^ i) [0..<Suc n])"
        using wait_loop_retry [where rd = rd and k = n and tries = "2 ^ n", OF Inr True nc]
        by (simp add: mult.commute)
      have "\<forall>i<Suc n. blocked rd lock i"
        using Suc.prems(2) b by (auto simp: less_Suc_eq)
      from Suc.hyps(1) [OF d _ this, of True] n
      obtain r where r: "wait_loop rd lock True (2 ^ Suc n) (Suc n) True (map (\<lambda>i. 2 ^ i) [0..<Suc n]) = Some r"
        and sh: "(case r of
            Inl e \<Rightarrow> \<exists>m<12. rd m = Inl e
          | Inr (hw', k', sl') \<Rightarrow>
              \<exists>m. Suc n \<le> m \<and> m \<le> 12 \<and> sl' = map (\<lambda>i. 2 ^ i) [0..<m] \<and> (\<forall>i<m. blocked rd lock i)
                 \<and> (m < 12 \<longrightarrow> \<not> blocked rd lock m)
                 \<and> k' = (if m = 12 then 12 else Suc m) \<and> hw' = (if m = Suc n then True else True))"
        by auto
      show ?thesis
      proof (cases r)
        case (Inl e)
        with r sh step show ?thesis by auto
      next
        case (Inr t)
        obtain hw' k' sl' where t: "t = (hw', k', sl')" by (cases t)
        from sh Inr t obtain m where m: "Suc n \<le> m" "m \<le> 12" "sl' = map (\<lambda>i. 2 ^ i) [0..<m]"
          "\<forall>i<m. blocked rd lock i" "m < 12 \<longrightarrow> \<not> blocked rd lock m"
          "k' = (if m = 12 then 12 else Suc m)" "hw' = True"
          by auto
        then have "n \<le> m \<and> m \<le> 12 \<and> sl' = map (\<lambda>i. 2 ^ i) [0..<m] \<and> (\<forall>i<m. blocked rd lock i)
             \<and> (m < 12 \<longrightarrow> \<not> blocked rd lock m)
             \<and> k' = (if m = 12 then 12 else Suc m) \<and> hw' = (if m = n then hw else True)"
          by auto
        then show ?thesis
          using step r Inr t by (auto simp del: upt_Suc intro!: exI [of _ m])
      qed
    qed
  qed
qed

text \<open>
  C7 (as the code has it). With \<open>wait_write_lock\<close> set, \<open>has_locks\<close> returns for every
  ledger history: the call is defined. When it returns a result, it has slept
  \<open>1, 2, 4, ..., 2 ^ (m - 1)\<close> for some \<open>m \<le> 12\<close>; each of the reads \<open>0, ..., m - 1\<close> found a
  foreign write lock and, unless \<open>m = 12\<close>, read \<open>m\<close> found none (the ledger is scanned
  again after every sleep, and the wait ends with the first clear scan);
  \<open>have_write_locks\<close> says whether it slept at all. The total wait is \<open>2 ^ m - 1\<close>, so at
  most \<open>2 ^ 12 - 1 = 4095\<close> time units: the test \<open>tries > 2 ** 11\<close> comes after the
  doubling, so the last sleep is the one of \<open>2 ^ 11\<close>. The call raises only when a
  read of the ledger raises or the run's timestamp does not parse; giving up on the
  lock is a normal return.
\<close>

theorem has_locks_wait_terminates:
  "\<exists>r. has_locks sp ts rd lock True = Some r
     \<and> (\<forall>st. r = Inr st \<longrightarrow>
           (\<exists>m\<le>12. slept st = map (\<lambda>i. 2 ^ i) [0..<m]
              \<and> (\<forall>i<m. blocked rd lock i) \<and> (m < 12 \<longrightarrow> \<not> blocked rd lock m)
              \<and> have_write_locks st = (0 < m)
              \<and> sum_list (slept st) + 1 = 2 ^ m \<and> sum_list (slept st) \<le> 4095))
     \<and> ((\<forall>k\<le>12. \<exists>c. rd k = Inr c) \<and> sp ts \<noteq> None \<longrightarrow> (\<exists>st. r = Inr st))"
proof (cases "rd 0 = Inl FileNotFoundError")
  case True
  then have nb: "\<not> blocked rd lock 0" by (simp add: blocked_def)
  show ?thesis
    using True nb by (auto simp: has_locks_def intro!: exI [of _ 0])
next
  case present: False
  have "0 \<le> (11::nat)" and "\<forall>i<0::nat. blocked rd lock i" by simp_all
  from wait_loop_shape [OF this, of False]
  obtain r where r0: "wait_loop rd lock True (2 ^ 0) 0 False (map (\<lambda>i. 2 ^ i) [0..<0]) = Some r"
    and sh: "(case r of
        Inl e \<Rightarrow> \<exists>m<12. rd m = Inl e
      | Inr (hw', k', sl') \<Rightarrow>
          \<exists>m. 0 \<le> m \<and> m \<le> 12 \<and> sl' = map (\<lambda>i. 2 ^ i) [0..<m] \<and> (\<forall>i<m. blocked rd lock i)
             \<and> (m < 12 \<longrightarrow> \<not> blocked rd lock m)
             \<and> k' = (if m = 12 then 12 else Suc m) \<and> hw' = (if m = 0 then False else True))"
    by blast
  from r0 have r: "wait_loop rd lock True 1 0 False [] = Some r" by simp
  show ?thesis
  proof (cases r)
    case (Inl e)
    with sh obtain m where "m < 12" "rd m = Inl e" by auto
    then have "\<not> (\<forall>k\<le>12. \<exists>c. rd k = Inr c)" by (auto intro!: exI [of _ m])
    then show ?thesis
      using present r Inl by (auto simp: has_locks_def)
  next
    case (Inr t)
    obtain hw' k' sl' where t: "t = (hw', k', sl')" by (cases t)
    from sh Inr t obtain m where m: "m \<le> 12" "sl' = map (\<lambda>i. 2 ^ i) [0..<m]"
      "\<forall>i<m. blocked rd lock i" "m < 12 \<longrightarrow> \<not> blocked rd lock m"
      "k' = (if m = 12 then 12 else Suc m)" "hw' = (0 < m)"
      by (auto split: if_splits)
    have k': "k' \<le> 12" using m(1,5) by auto
    have "sum_list sl' + 1 = 2 ^ m" using m(2) by (simp only: sum_backoff)
    moreover have "(2::nat) ^ m \<le> 2 ^ 12" using m(1) by (rule power_increasing) simp
    ultimately have tot: "sum_list sl' + 1 = 2 ^ m" "sum_list sl' \<le> 4095" by simp_all
    have shape: "\<exists>m\<le>12. sl' = map (\<lambda>i. 2 ^ i) [0..<m]
              \<and> (\<forall>i<m. blocked rd lock i) \<and> (m < 12 \<longrightarrow> \<not> blocked rd lock m)
              \<and> hw' = (0 < m)
              \<and> sum_list sl' + 1 = 2 ^ m \<and> sum_list sl' \<le> 4095"
      using m tot by (intro exI [of _ m]) simp
    show ?thesis
    proof (cases "sp ts")
      case None
      then show ?thesis using present r Inr t by (simp add: has_locks_def)
    next
      case cur: (Some cur)
      show ?thesis
      proof (cases "rd k'")
        case x: (Inl x)
        with k' have "\<not> (\<forall>k\<le>12. \<exists>c. rd k = Inr c)" by (auto intro!: exI [of _ k'])
        then show ?thesis using present r Inr t cur x by (simp add: has_locks_def)
      next
        case c: (Inr c)
        have eq: "has_locks sp ts rd lock True
            = Some (Inr \<lparr>have_read_locks = scan_read_locks sp cur lock (py_lines c),
                         have_write_locks = hw', slept = sl'\<rparr>)"
          using present r Inr t cur c by (simp add: has_locks_def)
        show ?thesis
          unfolding eq using shape by simp
      qed
    qed
  qed
qed

theorem has_locks_wait_terminates_witness:
  "\<exists>st. has_locks strptime_fixed (str ''202611031402'')
          (\<lambda>k. if k < 2 then Inr (str ''other.202611031401.write'') else Inr [])
          (Some (str ''me'')) True = Some (Inr st)
        \<and> slept st = [1, 2] \<and> have_write_locks st"
proof -
  let ?rd = "\<lambda>k::nat. if k < 2 then Inr (str ''other.202611031401.write'') else Inr []"
  have b: "blocked ?rd (Some (str ''me'')) 0" "blocked ?rd (Some (str ''me'')) 1"
    "\<not> blocked ?rd (Some (str ''me'')) 2"
    by (simp_all add: blocked_def ledger_eval)
  have p: "(\<forall>k\<le>12. \<exists>c. ?rd k = Inr c) \<and> strptime_fixed (str ''202611031402'') \<noteq> None"
    by (simp add: ledger_eval)
  from has_locks_wait_terminates [of strptime_fixed "(str ''202611031402'')" ?rd "Some (str ''me'')"] p
  obtain st m where st: "has_locks strptime_fixed (str ''202611031402'') ?rd (Some (str ''me'')) True
        = Some (Inr st)"
    and m: "m \<le> 12" "slept st = map (\<lambda>i. 2 ^ i) [0..<m]"
      "\<forall>i<m. blocked ?rd (Some (str ''me'')) i" "m < 12 \<longrightarrow> \<not> blocked ?rd (Some (str ''me'')) m"
      "have_write_locks st = (0 < m)"
    by blast
  from m(3) b(3) have "\<not> 2 < m" by blast
  moreover have "m \<noteq> 0"
  proof
    assume "m = 0"
    with m(4) b(1) show False by simp
  qed
  moreover have "m \<noteq> 1"
  proof
    assume "m = 1"
    with m(4) b(2) show False by simp
  qed
  ultimately have "m = 2" by simp
  with m(2,5) have "slept st = [1, 2]" "have_write_locks st"
    by (simp_all add: upt_rec)
  with st show ?thesis by blast
qed

text \<open>
  C7 fails as stated in its bound: while the write record of \<open>other\<close> stays in the
  ledger, the caller \<open>me\<close> sleeps twelve times, 4095 time units in all, which is more
  than \<open>2 ^ 11\<close>.
\<close>

theorem has_locks_total_wait_counterexample:
  "has_locks strptime_fixed (str ''202611031402'') (\<lambda>_. Inr (str ''other.202611031401.write''))
     (Some (str ''me'')) True
   = Some (Inr \<lparr>have_read_locks = True, have_write_locks = True,
                slept = [1, 2, 4, 8, 16, 32, 64, 128, 256, 512, 1024, 2048]\<rparr>)
   \<and> sum_list [1, 2, 4, 8, 16, 32, 64, 128, 256, 512, 1024, 2048 :: nat] = 4095
   \<and> (2::nat) ^ 11 < 4095"
  by (simp add: has_locks_static scan_read_locks_iff ledger_eval)

section \<open>Facts about the planner\<close>

lemma copied_append [simp]: "copied (xs @ ys) = copied xs @ copied ys"
  by (simp add: copied_def)

lemma copied_single [simp]:
  "copied [Copying p] = [p]" "copied [Linking p] = []" "copied [Checking p] = []" "copied [] = []"
  by (simp_all add: copied_def)

lemma complete_job_fields [simp]:
  "out (complete_job e w j) = out w"
  "cur_gb (complete_job e w j) = cur_gb w"
  "futures (complete_job e w j) = futures w"
  "ledger (complete_job e w j) = ledger w"
  "err (complete_job e w j) = err w"
  "visits (complete_job e w j) = visits w"
  "waited (complete_job e w j) = waited w"
  by (simp_all add: complete_job_def)

lemma complete_jobs_fields [simp]:
  "out (foldl (complete_job e) w js) = out w"
  "cur_gb (foldl (complete_job e) w js) = cur_gb w"
  "futures (foldl (complete_job e) w js) = futures w"
  "ledger (foldl (complete_job e) w js) = ledger w"
  "err (foldl (complete_job e) w js) = err w"
  "visits (foldl (complete_job e) w js) = visits w"
  "waited (foldl (complete_job e) w js) = waited w"
  by (induction js arbitrary: w; simp)+

lemma run_sched_fields [simp]:
  "out (run_sched e w) = out w"
  "cur_gb (run_sched e w) = cur_gb w"
  "futures (run_sched e w) = futures w"
  "ledger (run_sched e w) = ledger w"
  "err (run_sched e w) = err w"
  "waited (run_sched e w) = waited w"
  by (simp_all add: run_sched_def)

text \<open>What one visit does to the printed lines, the running total and the job list.\<close>

lemma visit_cases:
  assumes "w' = visit e src_dir target_dir max_gb hr fn w"
  shows "ledger w' = ledger w \<and> waited w' = waited w
    \<and> ((out w' = out w \<and> cur_gb w' = cur_gb w \<and> futures w' = futures w)
       \<or> (err w' = err w \<and> out w' = out w @ [Linking (path_join src_dir fn)] \<and> cur_gb w' = cur_gb w \<and> futures w' = futures w)
       \<or> (err w' = err w \<and> out w' = out w @ [Checking (path_join target_dir fn)] \<and> cur_gb w' = cur_gb w
            \<and> futures w' = futures w @ [job src_dir target_dir fn])
       \<or> (err w' = err w \<and> (\<exists>g. du e (path_join src_dir fn) = Some g \<and> cur_gb w + g \<le> max_gb
            \<and> out w' = out w @ [Copying (path_join src_dir fn)] \<and> cur_gb w' = cur_gb w + g
            \<and> futures w' = futures w @ [job src_dir target_dir fn])))"
  unfolding assms
  by (auto simp: visit_def Let_def ln_def submit_def start_copy_def os_remove_def job_def
      path_exists_def isfile_def islink_def split: option.splits)

lemma visit_all_append:
  "visit_all e s t m hr (xs @ ys) w = visit_all e s t m hr ys (visit_all e s t m hr xs w)"
proof (induction xs arbitrary: w)
  case Nil
  show ?case by simp
next
  case (Cons x xs)
  show ?case
  proof (cases "err w = None")
    case True
    then show ?thesis by (simp add: Cons.IH)
  next
    case False
    then show ?thesis by (cases ys) simp_all
  qed
qed

lemma visit_all_groups:
  "foldl (\<lambda>w' d. visit_all e s t m hr (g d) w') w ds
   = visit_all e s t m hr (concat (map g ds)) w"
  by (induction ds arbitrary: w) (simp_all add: visit_all_append)

lemma plan_split_files:
  "plan_split e s t m hr cfg w split =
     (if err w \<noteq> None then w
      else case cfg split of
             None \<Rightarrow> w\<lparr>err := Some KeyError\<rparr>
           | Some entries \<Rightarrow>
               (case group_entries e s [] entries of
                  Inl x \<Rightarrow> w\<lparr>err := Some x\<rparr>
                | Inr datasets \<Rightarrow> visit_all e s t m hr (split_files e s entries) w))"
  by (simp add: plan_split_def split_files_def visit_all_groups split: option.splits sum.splits)

text \<open>The quota invariant.\<close>

lemma visit_quota:
  assumes "quota_ok e max_gb w"
  shows "quota_ok e max_gb (visit e s t max_gb hr fn w)"
  using visit_cases [OF refl, of e s t max_gb hr fn w] assms
  by (auto simp: quota_ok_def copied_gb_def size_of_def)

lemma visit_all_quota:
  "quota_ok e max_gb w \<Longrightarrow> quota_ok e max_gb (visit_all e s t max_gb hr fns w)"
  by (induction fns arbitrary: w) (simp_all add: visit_quota)

lemma quota_ok_err [simp]: "quota_ok e m (w\<lparr>err := x\<rparr>) = quota_ok e m w"
  by (simp add: quota_ok_def)

lemma plan_split_quota:
  "quota_ok e max_gb w \<Longrightarrow> quota_ok e max_gb (plan_split e s t max_gb hr cfg w split)"
  by (simp add: plan_split_files visit_all_quota split: option.splits sum.splits)

lemma plan_splits_quota:
  "quota_ok e max_gb w \<Longrightarrow> quota_ok e max_gb (foldl (plan_split e s t max_gb hr cfg) w sps)"
  by (induction sps arbitrary: w) (simp_all add: plan_split_quota)

lemma copied_gb_nonneg:
  assumes "\<forall>p g. du e p = Some g \<longrightarrow> 0 \<le> g"
  shows "0 \<le> copied_gb e evs"
proof -
  have "0 \<le> size_of e p" for p
    using assms by (simp add: size_of_def split: option.splits)
  then show ?thesis
    unfolding copied_gb_def by (intro sum_list_nonneg) auto
qed

text \<open>The lock query of \<open>copy_datasets\<close> reads a ledger that does not change.\<close>

lemma read_of_None: "read_of None = (\<lambda>_. Inl FileNotFoundError)"
  by (rule ext) (simp add: read_of_def)

lemma read_of_Some: "read_of (Some c) = (\<lambda>_. Inr c)"
  by (rule ext) (simp add: read_of_def)

lemma has_locks_read_of:
  "\<exists>r. has_locks sp ts (read_of led) lock w = Some r
       \<and> (\<forall>x. r = Inl x \<longrightarrow> sp ts = None \<and> led \<noteq> None)"
  by (cases led)
    (auto simp: read_of_None read_of_Some has_locks_absent has_locks_static split: option.splits)

text \<open>The ways \<open>copy_datasets\<close> ends; it always ends.\<close>

lemma copy_datasets_cases:
  assumes "copy_datasets e s t cfg max_gb lock led fs = Some w"
  obtains (failed) x where "w = (initial_world e led fs)\<lparr>err := Some x\<rparr>"
  | (planned) st w1 where
      "has_locks (strptime e) (timestamp e) (read_of led) lock True = Some (Inr st)"
      "w1 = plan_all e s t max_gb (have_read_locks st) cfg
              (add_write_record lock (timestamp e) ((initial_world e led fs)\<lparr>waited := slept st\<rparr>))"
      "w = (if err w1 \<noteq> None then w1 else rotate_lock e lock (as_completed e w1))"
  using assms
  by (auto simp: copy_datasets_def Let_def split: option.splits sum.splits if_splits)

lemma copy_datasets_returns: "\<exists>w. copy_datasets e s t cfg max_gb lock led fs = Some w"
proof -
  obtain r where "has_locks (strptime e) (timestamp e) (read_of led) lock True = Some r"
    using has_locks_read_of by blast
  then show ?thesis
    by (cases r) (auto simp: copy_datasets_def Let_def split: prod.splits)
qed

lemma rotate_lock_fields [simp]:
  "out (rotate_lock e lock w) = out w"
  "cur_gb (rotate_lock e lock w) = cur_gb w"
  "futures (rotate_lock e lock w) = futures w"
  "tgt (rotate_lock e lock w) = tgt w"
  by (simp_all add: rotate_lock_def split: option.splits sum.splits)

lemma as_completed_fields [simp]:
  "out (as_completed e w) = out w"
  "cur_gb (as_completed e w) = cur_gb w"
  "futures (as_completed e w) = futures w"
  "ledger (as_completed e w) = ledger w"
  "err (as_completed e w) = err w"
  by (simp_all add: as_completed_def)

text \<open>The definitions that evaluate a run on concrete inputs.\<close>

lemmas planner_eval =
  copy_datasets_def read_of_None has_locks_absent str_def initial_world_def add_write_record_def plan_all_def
  splits_def plan_split_def dstype_of_def path_join_def startswith_def endswith_def
  dd_get_def sorted_desc_def dstypes_def visit_def run_sched_def complete_job_def
  submit_def ln_def os_remove_def start_copy_def path_exists_def isfile_def islink_def
  as_completed_def rotate_lock_def remove_lock_def write_record_def read_record_def
  lock_str_def kept_line_def py_lines_def strip_def is_space_def Let_def suffix_to_prefix
  copied_def copied_gb_def size_of_def

section \<open>The quota\<close>

text \<open>
  C1. Let the budget, the target directory's initial size and all file sizes be
  non-negative. \<open>copy_datasets\<close> returns, and in the state it returns (whether it ran
  through the three splits or stopped at an exception) the sizes of the files with a
  \<open>Copy\<close> decision add up to at most the budget.
\<close>

theorem copy_datasets_quota:
  assumes "0 \<le> max_gb"
    and "0 \<le> du_target e"
    and "\<forall>p g. du e p = Some g \<longrightarrow> 0 \<le> g"
  shows "\<exists>w. copy_datasets e s t cfg max_gb lock led fs = Some w
           \<and> copied_gb e (out w) \<le> max_gb"
proof -
  obtain w where w: "copy_datasets e s t cfg max_gb lock led fs = Some w"
    using copy_datasets_returns by blast
  have q: "quota_ok e max_gb w"
    using w
  proof (cases rule: copy_datasets_cases)
    case (failed x)
    then show ?thesis
      by (simp add: quota_ok_def initial_world_def copied_gb_def)
  next
    case (planned st w1)
    have "quota_ok e max_gb (add_write_record lock (timestamp e) ((initial_world e led fs)\<lparr>waited := slept st\<rparr>))"
      by (simp add: quota_ok_def initial_world_def add_write_record_def copied_gb_def)
    then have "quota_ok e max_gb w1"
      unfolding planned(2) plan_all_def by (rule plan_splits_quota)
    then show ?thesis
      unfolding planned(3) by (auto simp: quota_ok_def)
  qed
  have nn: "0 \<le> copied_gb e (out w)"
    using assms(3) by (rule copied_gb_nonneg)
  have "copied_gb e (out w) \<le> max_gb"
  proof (cases "copied (out w) = []")
    case True
    then show ?thesis using assms(1) by (simp add: copied_gb_def)
  next
    case False
    with q have "du_target e + copied_gb e (out w) \<le> max_gb"
      by (simp add: quota_ok_def)
    with assms(2) show ?thesis by simp
  qed
  with w show ?thesis by blast
qed

theorem copy_datasets_quota_witness:
  "\<exists>w. copy_datasets example_env ''/s'' ''/t'' example_cfg 5 (Some (str ''me'')) None Map.empty = Some w
       \<and> copied (out w) = [''/s/noiseA.bin'']
       \<and> copied_gb example_env (out w) \<le> 5"
proof -
  obtain w where w: "copy_datasets example_env ''/s'' ''/t'' example_cfg 5 (Some (str ''me'')) None
        Map.empty = Some w"
    and o: "out w = [Copying ''/s/noiseA.bin'', Linking ''/s/speechA.bin'']"
    by (simp add: planner_eval example_env_def example_cfg_def)
  have b: "(0::real) \<le> 5"
    by simp
  have t: "0 \<le> du_target example_env"
    by (simp add: example_env_def)
  have d: "\<forall>p g. du example_env p = Some g \<longrightarrow> 0 \<le> g"
    by (simp add: example_env_def)
  have c: "copied (out w) = [''/s/noiseA.bin'']"
    by (simp add: o copied_def)
  from copy_datasets_quota [OF b t d, of "''/s''" "''/t''" example_cfg "Some (str ''me'')" None Map.empty] w
  have "copied_gb example_env (out w) \<le> 5"
    by simp
  with w c show ?thesis by blast
qed

section \<open>The jobs of a run\<close>

text \<open>
  Each file looked at adds at most one job, the one for that file, so the jobs of a run
  are a subsequence of the files in the order they are looked at.
\<close>

lemma visit_futures:
  "\<exists>js. futures (visit e s t m hr fn w) = futures w @ js \<and> subseq js [job s t fn]"
  using visit_cases [OF refl, of e s t m hr fn w] by auto

lemma visit_all_futures:
  "\<exists>js. futures (visit_all e s t m hr fns w) = futures w @ js \<and> subseq js (map (job s t) fns)"
proof (induction fns arbitrary: w)
  case Nil
  show ?case by simp
next
  case (Cons fn fns)
  show ?case
  proof (cases "err w = None")
    case False
    then show ?thesis by simp
  next
    case True
    obtain js1 where 1: "futures (visit e s t m hr fn w) = futures w @ js1"
      "subseq js1 [job s t fn]"
      using visit_futures by blast
    obtain js2 where 2: "futures (visit_all e s t m hr fns (visit e s t m hr fn w))
        = futures (visit e s t m hr fn w) @ js2" "subseq js2 (map (job s t) fns)"
      using Cons.IH by blast
    have "subseq (js1 @ js2) ([job s t fn] @ map (job s t) fns)"
      using 1(2) 2(2) by (rule list_emb_append_mono)
    then show ?thesis
      using True 1(1) 2(1) by (intro exI [of _ "js1 @ js2"]) simp
  qed
qed

lemma dd_get_append:
  "dd_get (dd_append d k v) k' = (if k' = k then dd_get d k @ [v] else dd_get d k')"
  by (induction d k v rule: dd_append.induct) (auto simp: dd_get_def)

lemma group_entries_get:
  "group_entries e s acc entries = Inr ds \<Longrightarrow>
   dd_get ds d = dd_get acc d @ filter (\<lambda>x. dstype_of e (path_join s (fst x)) = Inr d) entries"
proof (induction entries arbitrary: acc)
  case Nil
  then show ?case by simp
next
  case (Cons x entries)
  obtain fn f where x: "x = (fn, f)" by (cases x)
  from Cons.prems obtain k where k: "dstype_of e (path_join s fn) = Inr k"
    and g: "group_entries e s (dd_append acc k (fn, f)) entries = Inr ds"
    by (auto simp: x split: sum.splits)
  from Cons.IH [OF g] show ?case
    by (simp add: x k dd_get_append)
qed

lemma split_files_Inr:
  assumes "group_entries e s [] entries = Inr ds"
  shows "split_files e s entries =
     concat (map (\<lambda>d. map fst (sorted_desc
                 (filter (\<lambda>x. dstype_of e (path_join s (fst x)) = Inr d) entries))) dstypes)"
  using group_entries_get [OF assms]
  by (simp add: split_files_def assms dd_get_def)

lemma set_sorted_desc [simp]: "set (sorted_desc xs) = set xs"
  by (simp add: sorted_desc_def)

lemma sorted_map_const: "(\<forall>x\<in>set xs. f x = (c::nat)) \<Longrightarrow> sorted (map f xs)"
  by (induction xs) auto

lemma split_files_sorted: "sorted (map (\<lambda>fn. prio e (path_join s fn)) (split_files e s entries))"
proof (cases "group_entries e s [] entries")
  case (Inl x)
  then show ?thesis by (simp add: split_files_def)
next
  case (Inr ds)
  let ?g = "\<lambda>d. sorted_desc (filter (\<lambda>x. dstype_of e (path_join s (fst x)) = Inr d) entries)"
  let ?r = "\<lambda>d. if d = ''noise'' then 0 else if d = ''speech'' then 1 else (2::nat)"
  have p: "prio e (path_join s (fst x)) = ?r d" if "x \<in> set (?g d)" for x d
    using that by (simp add: prio_def)
  have srt: "sorted (map ((\<lambda>fn. prio e (path_join s fn)) \<circ> fst) (?g d))" for d
    by (rule sorted_map_const [where c = "?r d"]) (simp add: p)
  show ?thesis
    unfolding split_files_Inr [OF Inr] dstypes_def
    by (simp add: sorted_append srt) (auto simp: prio_def)
qed

lemma sorted_of_subseq: "subseq xs ys \<Longrightarrow> sorted ys \<Longrightarrow> sorted (xs :: nat list)"
  by (auto simp: subseq_conv_nths sorted_nths)

lemma distinct_of_subseq: "subseq xs ys \<Longrightarrow> distinct ys \<Longrightarrow> distinct xs"
  by (auto simp: subseq_conv_nths)

lemma plan_split_futures:
  "\<exists>js. futures (plan_split e s t m hr cfg w split) = futures w @ js
        \<and> subseq js (map (job s t)
             (case cfg split of None \<Rightarrow> [] | Some entries \<Rightarrow> split_files e s entries))"
proof (cases "err w = None \<and> (\<exists>entries ds. cfg split = Some entries \<and> group_entries e s [] entries = Inr ds)")
  case True
  then obtain entries ds where c: "cfg split = Some entries" "group_entries e s [] entries = Inr ds"
    by blast
  with True have "plan_split e s t m hr cfg w split = visit_all e s t m hr (split_files e s entries) w"
    by (simp add: plan_split_files)
  then show ?thesis
    using visit_all_futures [of e s t m hr "split_files e s entries" w] by (simp add: c)
next
  case False
  then have "futures (plan_split e s t m hr cfg w split) = futures w"
    by (auto simp: plan_split_files split: option.splits sum.splits)
  then show ?thesis by simp
qed

lemma plan_splits_futures:
  "\<exists>js. futures (foldl (plan_split e s t m hr cfg) w sps) = futures w @ js
        \<and> subseq js (map (job s t)
             (concat (map (\<lambda>split. case cfg split of None \<Rightarrow> [] | Some entries \<Rightarrow> split_files e s entries) sps)))"
proof (induction sps arbitrary: w)
  case Nil
  show ?case by simp
next
  case (Cons sp sps)
  let ?f = "\<lambda>split. case cfg split of None \<Rightarrow> [] | Some entries \<Rightarrow> split_files e s entries"
  obtain js1 where 1: "futures (plan_split e s t m hr cfg w sp) = futures w @ js1"
    "subseq js1 (map (job s t) (?f sp))"
    using plan_split_futures by blast
  obtain js2 where 2: "futures (foldl (plan_split e s t m hr cfg) (plan_split e s t m hr cfg w sp) sps)
      = futures (plan_split e s t m hr cfg w sp) @ js2"
    "subseq js2 (map (job s t) (concat (map ?f sps)))"
    using Cons.IH by blast
  have "subseq (js1 @ js2) (map (job s t) (?f sp) @ map (job s t) (concat (map ?f sps)))"
    using 1(2) 2(2) by (rule list_emb_append_mono)
  then show ?case
    using 1(1) 2(1) by (intro exI [of _ "js1 @ js2"]) simp
qed

text \<open>
  C5. Among the jobs that one split adds to the executor, every job for a file of
  category \<open>noise\<close> is submitted before every job for a file of category \<open>speech\<close>:
  \<open>futures\<close> is the list of jobs in submission order, \<open>i\<close> and \<open>j\<close> are positions of
  jobs added by the split. This holds for every budget, every state of the target
  directory and every order in which the workers finish.
\<close>

theorem plan_split_priority:
  assumes "w' = plan_split e s t max_gb hr cfg w split"
    and "length (futures w) \<le> i" and "i < length (futures w')"
    and "length (futures w) \<le> j" and "j < length (futures w')"
    and "dstype_of e (fst (futures w' ! i)) = Inr ''noise''"
    and "dstype_of e (fst (futures w' ! j)) = Inr ''speech''"
  shows "i < j"
proof -
  let ?L = "case cfg split of None \<Rightarrow> [] | Some entries \<Rightarrow> split_files e s entries"
  obtain js where js: "futures w' = futures w @ js" "subseq js (map (job s t) ?L)"
    unfolding assms(1) using plan_split_futures by blast
  have "sorted (map (\<lambda>fn. prio e (path_join s fn)) ?L)"
    by (cases "cfg split") (simp_all add: split_files_sorted)
  moreover have "subseq (map (prio e \<circ> fst) js) (map (prio e \<circ> fst) (map (job s t) ?L))"
    using js(2) by (rule subseq_map)
  moreover have "map (prio e \<circ> fst) (map (job s t) ?L) = map (\<lambda>fn. prio e (path_join s fn)) ?L"
    by (simp add: job_def comp_def)
  ultimately have srt: "sorted (map (prio e \<circ> fst) js)"
    using sorted_of_subseq by metis
  define i' j' where "i' = i - length (futures w)" and "j' = j - length (futures w)"
  have i': "i' < length js" "futures w' ! i = js ! i'"
    using assms(2,3) by (simp_all add: js(1) i'_def nth_append)
  have j': "j' < length js" "futures w' ! j = js ! j'"
    using assms(4,5) by (simp_all add: js(1) j'_def nth_append)
  have pi: "prio e (fst (js ! i')) = 0" using assms(6) i'(2) by (simp add: prio_def)
  have pj: "prio e (fst (js ! j')) = 1" using assms(7) j'(2) by (simp add: prio_def)
  have "i' < j'"
  proof (rule ccontr)
    assume "\<not> i' < j'"
    then have "j' \<le> i'" by simp
    with srt i'(1) have "map (prio e \<circ> fst) js ! j' \<le> map (prio e \<circ> fst) js ! i'"
      by (simp add: sorted_iff_nth_mono del: map_map)
    with i'(1) j'(1) pi pj show False by simp
  qed
  then show ?thesis
    using assms(2,4) by (simp add: i'_def j'_def)
qed

theorem plan_split_priority_witness:
  "futures (plan_split example_env ''/s'' ''/t'' 7 False speech_first_cfg
             (initial_world example_env None Map.empty) ''train'')
   = [(''/s/noiseA.bin'', ''/t/noiseA.bin''), (''/s/speechA.bin'', ''/t/speechA.bin'')]
   \<and> dstype_of example_env ''/s/noiseA.bin'' = Inr ''noise''
   \<and> dstype_of example_env ''/s/speechA.bin'' = Inr ''speech''
   \<and> (0::nat) < 1"
proof -
  let ?w = "initial_world example_env None Map.empty"
  let ?w' = "plan_split example_env ''/s'' ''/t'' 7 False speech_first_cfg ?w ''train''"
  have f: "futures ?w' = [(''/s/noiseA.bin'', ''/t/noiseA.bin''), (''/s/speechA.bin'', ''/t/speechA.bin'')]"
    by (simp add: planner_eval example_env_def speech_first_cfg_def)
  have d: "dstype_of example_env ''/s/noiseA.bin'' = Inr ''noise''"
    "dstype_of example_env ''/s/speechA.bin'' = Inr ''speech''"
    by (simp_all add: dstype_of_def example_env_def)
  have l: "length (futures ?w) \<le> 0"
    by (simp add: initial_world_def)
  have i: "0 < length (futures ?w')" and j: "1 < length (futures ?w')"
    by (simp_all add: f)
  have n: "dstype_of example_env (fst (futures ?w' ! 0)) = Inr ''noise''"
    and sp: "dstype_of example_env (fst (futures ?w' ! 1)) = Inr ''speech''"
    by (simp_all add: f d)
  have "length (futures ?w) \<le> 1"
    using l by simp
  from plan_split_priority [OF refl l i this j n sp]
  have "(0::nat) < 1" .
  with f d show ?thesis by simp
qed

text \<open>
  C6 (as the code has it). The planner keeps no record of the paths it has planned. If
  the file names it looks at (the entries of the three splits whose category is one of
  \<open>noise\<close>, \<open>speech\<close>, \<open>rir\<close>) resolve to pairwise distinct target paths, no two jobs of the
  run have the same target path.
\<close>

theorem copy_datasets_one_job_per_path:
  assumes "copy_datasets e s t cfg max_gb lock led fs = Some w"
    and "distinct (map (path_join t) (catalog_files e s cfg))"
  shows "distinct (map snd (futures w))"
  using assms(1)
proof (cases rule: copy_datasets_cases)
  case (failed x)
  then show ?thesis by (simp add: initial_world_def)
next
  case (planned st w1)
  obtain js where js: "futures w1 = js" "subseq js (map (job s t) (catalog_files e s cfg))"
    using plan_splits_futures [of e s t max_gb "have_read_locks st" cfg
        "add_write_record lock (timestamp e) ((initial_world e led fs)\<lparr>waited := slept st\<rparr>)" splits]
    by (auto simp: planned(2) plan_all_def catalog_files_def initial_world_def add_write_record_def)
  have "subseq (map snd js) (map snd (map (job s t) (catalog_files e s cfg)))"
    using js(2) by (rule subseq_map)
  moreover have "map snd (map (job s t) (catalog_files e s cfg)) = map (path_join t) (catalog_files e s cfg)"
    by (simp add: job_def comp_def)
  ultimately have "distinct (map snd js)"
    using assms(2) distinct_of_subseq by metis
  moreover have "futures w = futures w1"
    by (simp add: planned(3))
  ultimately show ?thesis by (simp add: js(1))
qed

theorem copy_datasets_one_job_per_path_witness:
  "\<exists>w. copy_datasets example_env ''/s'' ''/t'' example_cfg 7 (Some (str ''me'')) None Map.empty = Some w
       \<and> map snd (futures w) = [''/t/noiseA.bin'', ''/t/speechA.bin'']
       \<and> distinct (map snd (futures w))"
proof -
  obtain w where w: "copy_datasets example_env ''/s'' ''/t'' example_cfg 7 (Some (str ''me'')) None
        Map.empty = Some w"
    and f: "map snd (futures w) = [''/t/noiseA.bin'', ''/t/speechA.bin'']"
    by (simp add: planner_eval example_env_def example_cfg_def)
  have "distinct (map (path_join ''/t'') (catalog_files example_env ''/s'' example_cfg))"
    by (simp add: catalog_files_def split_files_def planner_eval example_env_def example_cfg_def)
  from copy_datasets_one_job_per_path [OF w this] w f show ?thesis
    by (intro exI [of _ w]) simp
qed

text \<open>
  C6 fails as stated: for the catalog that lists \<open>noiseA.bin\<close> twice, with room for both
  copies in the budget, the run submits two jobs for the target path \<open>/t/noiseA.bin\<close>.
\<close>

theorem copy_datasets_same_path_counterexample:
  "map_option futures
     (copy_datasets example_env ''/s'' ''/t'' twice_cfg 10 (Some (str ''me'')) None Map.empty)
   = Some [(''/s/noiseA.bin'', ''/t/noiseA.bin''), (''/s/noiseA.bin'', ''/t/noiseA.bin'')]"
  by (simp add: planner_eval example_env_def twice_cfg_def)

section \<open>The write record of a run without owner id\<close>

text \<open>A record without line breaks, written after a line feed, is a line of the file.\<close>

lemma py_lines_acc_clean:
  assumes "10 \<notin> set line" "13 \<notin> set line"
  shows "py_lines_acc acc (line @ rest) = py_lines_acc (rev line @ acc) rest"
  using assms by (induction line arbitrary: acc) auto

lemma py_lines_acc_record:
  assumes "10 \<notin> set line" "13 \<notin> set line" "line \<noteq> []"
    and "rest = [] \<or> (\<exists>r. rest = 10 # r)"
  shows "line \<in> set (py_lines_acc acc (c @ 10 # line @ rest))"
proof (induction "length c" arbitrary: c acc rule: less_induct)
  case less
  have fin: "line \<in> set (py_lines_acc [] (line @ rest))"
    using assms(3,4) by (auto simp: py_lines_acc_clean [OF assms(1,2)])
  show ?case
  proof (cases c)
    case Nil
    then show ?thesis using fin by simp
  next
    case (Cons x c')
    show ?thesis
    proof (cases "x = 13")
      case False
      then show ?thesis
        using less [of c'] by (simp add: Cons)
    next
      case cr: True
      show ?thesis
      proof (cases c')
        case Nil
        then show ?thesis using fin cr by (simp add: Cons)
      next
        case c': (Cons y c'')
        show ?thesis
        proof (cases "y = 10")
          case True
          then show ?thesis
            using less [of c''] cr by (simp add: Cons c')
        next
          case False
          then show ?thesis
            using less [of c'] cr by (simp add: Cons c')
        qed
      qed
    qed
  qed
qed

lemma visit_all_ledger [simp]: "ledger (visit_all e s t m hr fns w) = ledger w"
proof (induction fns arbitrary: w)
  case Nil
  show ?case by simp
next
  case (Cons fn fns)
  then show ?case
    using visit_cases [OF refl, of e s t m hr fn w] by simp
qed

lemma plan_split_ledger [simp]: "ledger (plan_split e s t m hr cfg w split) = ledger w"
  by (simp add: plan_split_files split: option.splits sum.splits)

lemma plan_all_ledger [simp]: "ledger (plan_all e s t m hr cfg w) = ledger w"
proof -
  have "ledger (foldl (plan_split e s t m hr cfg) w sps) = ledger w" for sps
    by (induction sps arbitrary: w) simp_all
  then show ?thesis by (simp add: plan_all_def)
qed

text \<open>
  C9. Let the run's timestamp be free of line breaks (it is what \<open>strftime\<close> printed)
  and parse, or the ledger be absent. \<open>copy_datasets\<close> without owner id returns, and the
  ledger it leaves is the ledger it found followed by a line feed and the record
  \<open>None.<timestamp>.write\<close>; it stays, since only a run with an owner id rotates its
  record. Whoever then queries this ledger, also after further records were appended,
  with an owner id that is not a prefix of that record, finds a foreign write lock:
  the loop condition holds for the record, and a query that returns a result returns
  \<open>have_write_locks = True\<close>.
\<close>

theorem copy_datasets_anonymous_write_record:
  assumes "strptime e (timestamp e) \<noteq> None \<or> led = None"
    and "10 \<notin> set (timestamp e)" and "13 \<notin> set (timestamp e)"
  shows "\<exists>w c1. copy_datasets e s t cfg max_gb None led fs = Some w
    \<and> c1 = (case led of None \<Rightarrow> [] | Some c \<Rightarrow> c)
             @ [10] @ (str ''None.'') @ timestamp e @ (str ''.write'')
    \<and> ledger w = Some c1
    \<and> (\<forall>l more wt sp ts' st.
          \<not> startswith ((str ''None.'') @ timestamp e @ (str ''.write'')) l
          \<and> (more = [] \<or> (\<exists>r. more = 10 # r))
          \<longrightarrow> list_ex (foreign_write (Some l)) (py_lines (c1 @ more))
            \<and> (has_locks sp ts' (\<lambda>_. Inr (c1 @ more)) (Some l) wt = Some (Inr st)
                 \<longrightarrow> have_write_locks st))"
proof -
  let ?rec = "(str ''None.'') @ timestamp e @ (str ''.write'')"
  let ?c0 = "case led of None \<Rightarrow> [] | Some c \<Rightarrow> c"
  let ?c1 = "?c0 @ [10] @ ?rec"
  have cl: "10 \<notin> set ?rec" "13 \<notin> set ?rec" "?rec \<noteq> []"
    using assms(2,3) by (auto simp: str_def)
  obtain r where r: "has_locks (strptime e) (timestamp e) (read_of led) None True = Some r"
    "\<forall>x. r = Inl x \<longrightarrow> strptime e (timestamp e) = None \<and> led \<noteq> None"
    using has_locks_read_of by blast
  with assms(1) obtain st where st: "r = Inr st"
    by (cases r) auto
  define w1 where "w1 = plan_all e s t max_gb (have_read_locks st) cfg
      (add_write_record None (timestamp e) ((initial_world e led fs)\<lparr>waited := slept st\<rparr>))"
  define w where "w = (if err w1 \<noteq> None then w1 else rotate_lock e None (as_completed e w1))"
  have run: "copy_datasets e s t cfg max_gb None led fs = Some w"
    by (simp add: copy_datasets_def r(1) st w_def w1_def Let_def)
  have "ledger w1 = Some ?c1"
    by (simp add: w1_def add_write_record_def initial_world_def write_record_def lock_str_def
        str_def)
  then have led: "ledger w = Some ?c1"
    by (simp add: w_def rotate_lock_def)
  have seen: "list_ex (foreign_write (Some l)) (py_lines (?c1 @ more))
      \<and> (has_locks sp ts' (\<lambda>_. Inr (?c1 @ more)) (Some l) wt = Some (Inr st')
           \<longrightarrow> have_write_locks st')"
    if nl: "\<not> startswith ?rec l" and more: "more = [] \<or> (\<exists>r. more = 10 # r)"
    for l more wt sp ts' st'
  proof -
    have "?rec \<in> set (py_lines (?c0 @ 10 # ?rec @ more))"
      unfolding py_lines_def using cl more by (rule py_lines_acc_record)
    moreover have "strip ?rec = ?rec"
      by (simp add: strip_def is_space_def str_def)
    then have "foreign_write (Some l) ?rec"
      using nl by (simp add: foreign_write_def endswith_def suffix_def)
    ultimately have ex: "list_ex (foreign_write (Some l)) (py_lines (?c1 @ more))"
      unfolding list_ex_iff by auto
    then show ?thesis
      by (auto simp: has_locks_static split: option.splits)
  qed
  show ?thesis
    by (intro exI [of _ w] exI [of _ ?c1] conjI run refl led allI impI; (elim conjE)?)
      (rule seen [THEN conjunct1], assumption+, rule seen [THEN conjunct2, rule_format], assumption+)
qed

theorem copy_datasets_anonymous_write_record_witness:
  "\<exists>w. copy_datasets example_env ''/s'' ''/t'' example_cfg 7 None
          (Some (str ''x.202611031401.read'')) Map.empty = Some w
       \<and> ledger w = Some ((str ''x.202611031401.read'') @ [10] @ (str ''None.202611031402.write''))
       \<and> list_ex (foreign_write (Some (str ''job2'')))
            (py_lines ((str ''x.202611031401.read'') @ [10] @ (str ''None.202611031402.write'')))"
proof -
  have p: "strptime example_env (timestamp example_env) \<noteq> None
      \<or> Some (str ''x.202611031401.read'') = None"
    by (simp add: example_env_def ledger_eval)
  have n: "10 \<notin> set (timestamp example_env)" "13 \<notin> set (timestamp example_env)"
    by (simp_all add: example_env_def str_def)
  from copy_datasets_anonymous_write_record [OF p n, of "''/s''" "''/t''" example_cfg 7 Map.empty]
  obtain w c1 where w: "copy_datasets example_env ''/s'' ''/t'' example_cfg 7 None
        (Some (str ''x.202611031401.read'')) Map.empty = Some w"
    and c1: "c1 = (str ''x.202611031401.read'') @ [10] @ (str ''None.'') @ timestamp example_env @ (str ''.write'')"
      "ledger w = Some c1"
    and q: "\<forall>l more wt sp ts' st.
          \<not> startswith ((str ''None.'') @ timestamp example_env @ (str ''.write'')) l
          \<and> (more = [] \<or> (\<exists>r. more = 10 # r))
          \<longrightarrow> list_ex (foreign_write (Some l)) (py_lines (c1 @ more))
            \<and> (has_locks sp ts' (\<lambda>_. Inr (c1 @ more)) (Some l) wt = Some (Inr st)
                 \<longrightarrow> have_write_locks st)"
    by auto
  have "\<not> startswith ((str ''None.'') @ timestamp example_env @ (str ''.write'')) (str ''job2'')"
    by (simp add: startswith_def example_env_def str_def)
  with q [rule_format, of "(str ''job2'')" "[]"]
  have "list_ex (foreign_write (Some (str ''job2''))) (py_lines c1)"
    by simp
  with w c1 show ?thesis
    by (intro exI [of _ w]) (simp add: example_env_def str_def)
qed

section \<open>Running twice\<close>

text \<open>
  Finished jobs leave an entry at their target, so the paths covered do not change when
  jobs finish; a visit adds the path of its file.
\<close>

lemma complete_job_covered:
  assumes "pending_ok w"
  shows "pending_ok (complete_job e w j) \<and> covered (complete_job e w j) = covered w
    \<and> set (pending (complete_job e w j)) = set (pending w) - {j}"
  using assms
  by (auto simp: complete_job_def pending_ok_def covered_def list_all_iff)

lemma complete_jobs_covered:
  assumes "pending_ok w"
  shows "pending_ok (foldl (complete_job e) w js) \<and> covered (foldl (complete_job e) w js) = covered w
    \<and> set (pending (foldl (complete_job e) w js)) = set (pending w) - set js"
  using assms
proof (induction js arbitrary: w)
  case Nil
  then show ?case by simp
next
  case (Cons j js)
  from complete_job_covered [OF Cons.prems, of e j]
  have 1: "pending_ok (complete_job e w j)" "covered (complete_job e w j) = covered w"
    "set (pending (complete_job e w j)) = set (pending w) - {j}"
    by simp_all
  from Cons.IH [OF 1(1)] 1(2,3) show ?case by auto
qed

lemma covered_irrelevant [simp]:
  "pending_ok (w\<lparr>visits := n\<rparr>) = pending_ok w" "covered (w\<lparr>visits := n\<rparr>) = covered w"
  "pending_ok (w\<lparr>out := evs\<rparr>) = pending_ok w" "covered (w\<lparr>out := evs\<rparr>) = covered w"
  "pending_ok (w\<lparr>cur_gb := g\<rparr>) = pending_ok w" "covered (w\<lparr>cur_gb := g\<rparr>) = covered w"
  "pending_ok (w\<lparr>err := x\<rparr>) = pending_ok w" "covered (w\<lparr>err := x\<rparr>) = covered w"
  "pending_ok (w\<lparr>ledger := l\<rparr>) = pending_ok w" "covered (w\<lparr>ledger := l\<rparr>) = covered w"
  "pending_ok (w\<lparr>waited := sl\<rparr>) = pending_ok w" "covered (w\<lparr>waited := sl\<rparr>) = covered w"
  by (simp_all add: pending_ok_def covered_def)

lemma run_sched_covered:
  assumes "pending_ok w"
  shows "pending_ok (run_sched e w) \<and> covered (run_sched e w) = covered w"
  using complete_jobs_covered [OF assms, of e "sched e (visits w)"]
  by (simp add: run_sched_def)

lemma submit_covered:
  assumes "pending_ok w"
  shows "pending_ok (submit a b w) \<and> covered (submit a b w) = covered w \<union> {b}"
proof -
  have "snd ((futures w @ [(a, b)]) ! j) = snd (futures w ! j)" if "j \<in> set (pending w)" for j
    using that assms by (simp add: pending_ok_def list_all_iff nth_append)
  then have "(\<lambda>j. snd ((futures w @ [(a, b)]) ! j)) ` set (pending w)
      = (\<lambda>j. snd (futures w ! j)) ` set (pending w)"
    by (intro image_cong) simp_all
  moreover have "pending_ok (submit a b w)"
    using assms by (auto simp: submit_def pending_ok_def list_all_iff)
  ultimately show ?thesis
    by (auto simp: submit_def covered_def)
qed

lemma visit_covered:
  assumes "pending_ok w"
  shows "pending_ok (visit e s t m hr fn w)
    \<and> (err (visit e s t m hr fn w) = None
         \<longrightarrow> err w = None \<and> covered (visit e s t m hr fn w) = covered w \<union> {path_join t fn})"
proof -
  let ?w = "run_sched e w"
  let ?p = "path_join t fn"
  note rs = run_sched_covered [OF assms, of e]
  have ok: "pending_ok ?w" and cv: "covered ?w = covered w" using rs by simp_all
  have rm: "pending_ok (os_remove p ?w)" for p
    using ok by (simp add: os_remove_def pending_ok_def)
  have in_cov: "?p \<in> covered w" if "tgt ?w ?p \<noteq> None"
    using that cv by (auto simp: covered_def)
  have rmc: "covered (os_remove ?p ?w) \<union> {?p} = covered w \<union> {?p}"
    using cv by (auto simp: os_remove_def covered_def)
  have lnc: "covered (ln a ?p (?w\<lparr>out := evs\<rparr>)) = covered w \<union> {?p}"
    "pending_ok (ln a ?p (?w\<lparr>out := evs\<rparr>))" if "tgt ?w ?p = None" for a evs
    using that cv ok by (auto simp: ln_def covered_def pending_ok_def)
  have er: "err w = None" if "err (visit e s t m hr fn w) = None"
    using that
    by (auto simp: visit_def Let_def start_copy_def submit_def ln_def os_remove_def
        path_exists_def isfile_def islink_def split: option.splits if_splits)
  have "pending_ok (visit e s t m hr fn w)
    \<and> (err (visit e s t m hr fn w) = None
         \<longrightarrow> covered (visit e s t m hr fn w) = covered w \<union> {path_join t fn})"
    using ok cv rm in_cov rmc lnc submit_covered
    by (auto simp: visit_def Let_def start_copy_def path_exists_def isfile_def islink_def
        split: option.splits)
  with er show ?thesis by blast
qed

lemma visit_all_covered:
  assumes "pending_ok w"
  shows "pending_ok (visit_all e s t m hr fns w)
    \<and> (err (visit_all e s t m hr fns w) = None
         \<longrightarrow> covered (visit_all e s t m hr fns w) = covered w \<union> path_join t ` set fns)"
  using assms
proof (induction fns arbitrary: w)
  case Nil
  then show ?case by simp
next
  case (Cons fn fns)
  show ?case
  proof (cases "err w = None")
    case False
    with Cons.prems show ?thesis by auto
  next
    case True
    note v = visit_covered [OF Cons.prems, of e s t m hr fn]
    from v have ok: "pending_ok (visit e s t m hr fn w)" by simp
    note ih = Cons.IH [OF ok]
    show ?thesis
    proof (intro conjI impI)
      show "pending_ok (visit_all e s t m hr (fn # fns) w)"
        using True ih by simp
    next
      assume a: "err (visit_all e s t m hr (fn # fns) w) = None"
      then have e2: "err (visit_all e s t m hr fns (visit e s t m hr fn w)) = None"
        using True by simp
      have "err (visit e s t m hr fn w) = None"
      proof (rule ccontr)
        assume "err (visit e s t m hr fn w) \<noteq> None"
        then have "visit_all e s t m hr fns (visit e s t m hr fn w) = visit e s t m hr fn w"
          by (cases fns) simp_all
        with e2 \<open>err (visit e s t m hr fn w) \<noteq> None\<close> show False by simp
      qed
      with v have "covered (visit e s t m hr fn w) = covered w \<union> {path_join t fn}" by simp
      with ih e2 show "covered (visit_all e s t m hr (fn # fns) w)
          = covered w \<union> path_join t ` set (fn # fns)"
        using True by auto
    qed
  qed
qed

lemma plan_split_covered:
  assumes "pending_ok w"
  shows "pending_ok (plan_split e s t m hr cfg w split)
    \<and> (err (plan_split e s t m hr cfg w split) = None
         \<longrightarrow> err w = None
           \<and> covered (plan_split e s t m hr cfg w split)
               = covered w \<union> path_join t ` set (case cfg split of None \<Rightarrow> []
                                                   | Some entries \<Rightarrow> split_files e s entries))"
  using assms visit_all_covered [OF assms, of e s t m hr _]
  by (auto simp: plan_split_files split: option.splits sum.splits)

lemma plan_splits_covered:
  assumes "pending_ok w"
  shows "pending_ok (foldl (plan_split e s t m hr cfg) w sps)
    \<and> (err (foldl (plan_split e s t m hr cfg) w sps) = None
         \<longrightarrow> err w = None
           \<and> covered (foldl (plan_split e s t m hr cfg) w sps)
               = covered w \<union> path_join t ` set (concat (map (\<lambda>split. case cfg split of None \<Rightarrow> []
                                                   | Some entries \<Rightarrow> split_files e s entries) sps)))"
  using assms
proof (induction sps arbitrary: w)
  case Nil
  then show ?case by simp
next
  case (Cons sp sps)
  note p = plan_split_covered [OF Cons.prems, of e s t m hr cfg sp]
  from p have ok: "pending_ok (plan_split e s t m hr cfg w sp)" by simp
  from Cons.IH [OF ok] p show ?case by auto
qed

lemma as_completed_covered:
  assumes "pending_ok w"
  shows "dom (tgt (as_completed e w)) = covered w"
proof -
  from complete_jobs_covered [OF assms, of e "sched e (visits w) @ pending w"]
  have "covered (as_completed e w) = covered w" "set (pending (as_completed e w)) = {}"
    by (simp_all add: as_completed_def)
  then show ?thesis by (simp add: covered_def)
qed

lemma copy_datasets_target_entries:
  assumes "copy_datasets e s t cfg max_gb lock led fs = Some w" and "err w = None"
  shows "dom (tgt w) = dom fs \<union> path_join t ` set (catalog_files e s cfg) \<and> ledger w \<noteq> None"
  using assms(1)
proof (cases rule: copy_datasets_cases)
  case (failed x)
  with assms(2) show ?thesis by simp
next
  case (planned st w1)
  let ?w0 = "add_write_record lock (timestamp e) ((initial_world e led fs)\<lparr>waited := slept st\<rparr>)"
  have ok0: "pending_ok ?w0" and c0: "covered ?w0 = dom fs"
    by (simp_all add: pending_ok_def covered_def add_write_record_def initial_world_def)
  have e1: "err w1 = None"
    using assms(2) planned(3) by (auto split: if_splits)
  then have w: "w = rotate_lock e lock (as_completed e w1)"
    using planned(3) by simp
  from plan_splits_covered [OF ok0, of e s t max_gb "have_read_locks st" cfg splits] e1
  have ok1: "pending_ok w1"
    and c1: "covered w1 = dom fs \<union> path_join t ` set (catalog_files e s cfg)"
    by (simp_all add: planned(2) plan_all_def catalog_files_def c0)
  have "dom (tgt w) = covered w1"
    using as_completed_covered [OF ok1, of e] by (simp add: w)
  moreover have "ledger w1 \<noteq> None"
    by (simp add: planned(2) add_write_record_def)
  then have "ledger w \<noteq> None"
    by (auto simp: w rotate_lock_def split: option.splits sum.splits)
  ultimately show ?thesis by (simp add: c1)
qed

text \<open>When a run ends without an exception.\<close>

lemma visit_err:
  "err (visit e s t m hr fn w)
   = (case du e (path_join s fn) of None \<Rightarrow> Some CalledProcessError | Some g \<Rightarrow> err w)"
  by (auto simp: visit_def Let_def start_copy_def submit_def ln_def os_remove_def
      path_exists_def isfile_def islink_def split: option.splits)

lemma visit_all_err:
  "err (visit_all e s t m hr fns w) = None
   \<longleftrightarrow> err w = None \<and> list_all (\<lambda>fn. du e (path_join s fn) \<noteq> None) fns"
proof (induction fns arbitrary: w)
  case Nil
  show ?case by simp
next
  case (Cons fn fns)
  show ?case
    by (cases "err w = None") (auto simp: Cons.IH visit_err split: option.splits)
qed

lemma plan_split_err:
  "err (plan_split e s t m hr cfg w split) = None \<longleftrightarrow> err w = None \<and> plannable e s cfg split"
  by (auto simp: plan_split_files plannable_def visit_all_err split: option.splits sum.splits)

lemma plan_splits_err:
  "err (foldl (plan_split e s t m hr cfg) w sps) = None
   \<longleftrightarrow> err w = None \<and> list_all (plannable e s cfg) sps"
  by (induction sps arbitrary: w) (auto simp: plan_split_err)

lemma copy_datasets_err:
  "\<exists>w. copy_datasets e s t cfg max_gb lock led fs = Some w
      \<and> (err w = None \<longleftrightarrow>
           (led = None \<or> strptime e (timestamp e) \<noteq> None) \<and> list_all (plannable e s cfg) splits)"
proof -
  obtain r where r: "has_locks (strptime e) (timestamp e) (read_of led) lock True = Some r"
    "\<forall>x. r = Inl x \<longrightarrow> strptime e (timestamp e) = None \<and> led \<noteq> None"
    using has_locks_read_of by blast
  show ?thesis
  proof (cases r)
    case (Inl x)
    with r show ?thesis by (simp add: copy_datasets_def)
  next
    case (Inr st)
    have p: "led = None \<or> strptime e (timestamp e) \<noteq> None"
    proof (cases led)
      case None
      then show ?thesis by simp
    next
      case (Some c)
      with r(1) Inr show ?thesis
        by (auto simp: read_of_Some has_locks_static split: option.splits)
    qed
    let ?w0 = "add_write_record lock (timestamp e) ((initial_world e led fs)\<lparr>waited := slept st\<rparr>)"
    let ?w1 = "plan_all e s t max_gb (have_read_locks st) cfg ?w0"
    have e0: "err ?w0 = None" and l0: "ledger ?w0 \<noteq> None"
      by (simp_all add: add_write_record_def initial_world_def)
    have e1: "err ?w1 = None \<longleftrightarrow> list_all (plannable e s cfg) splits"
      by (simp add: plan_all_def plan_splits_err e0)
    have "ledger ?w1 \<noteq> None" using l0 by simp
    then have "err (rotate_lock e lock (as_completed e ?w1)) = err ?w1"
      by (auto simp: rotate_lock_def remove_lock_def split: option.splits sum.splits)
    then have "err (if err ?w1 \<noteq> None then ?w1 else rotate_lock e lock (as_completed e ?w1)) = None
        \<longleftrightarrow> list_all (plannable e s cfg) splits"
      using e1 by (simp split: if_splits)
    moreover have "copy_datasets e s t cfg max_gb lock led fs
        = Some (if err ?w1 \<noteq> None then ?w1 else rotate_lock e lock (as_completed e ?w1))"
      by (simp add: copy_datasets_def r(1) Inr Let_def)
    ultimately show ?thesis
      using p by (intro exI [of _ "if err ?w1 \<noteq> None then ?w1 else rotate_lock e lock (as_completed e ?w1)"]) (simp only: simp_thms)
  qed
qed

lemma dstype_of_cong: "h5_keys e2 = h5_keys e1 \<Longrightarrow> dstype_of e2 p = dstype_of e1 p"
  by (simp add: dstype_of_def)

lemma group_entries_cong:
  assumes "h5_keys e2 = h5_keys e1"
  shows "group_entries e2 s acc entries = group_entries e1 s acc entries"
proof (induction entries arbitrary: acc)
  case Nil
  show ?case by simp
next
  case (Cons x entries)
  obtain fn f where x: "x = (fn, f)" by (cases x)
  show ?case
    unfolding x group_entries.simps dstype_of_cong [OF assms]
    by (simp add: Cons.IH split: sum.splits)
qed

lemma split_files_cong:
  assumes "h5_keys e2 = h5_keys e1"
  shows "split_files e2 s entries = split_files e1 s entries"
  unfolding split_files_def group_entries_cong [OF assms] ..

lemma catalog_files_cong:
  assumes "h5_keys e2 = h5_keys e1"
  shows "catalog_files e2 s cfg = catalog_files e1 s cfg"
  unfolding catalog_files_def split_files_cong [OF assms] ..

lemma plannable_cong:
  assumes "h5_keys e2 = h5_keys e1" and "du e2 = du e1"
  shows "plannable e2 s cfg split = plannable e1 s cfg split"
  unfolding plannable_def split_files_cong [OF assms(1)] group_entries_cong [OF assms(1)] assms(2) ..

text \<open>
  C8. Let a first run of \<open>copy_datasets\<close> end without an exception, and let a second run
  start from the ledger and the target directory the first one left, with the same
  source directory (the same keys and sizes of the files), the same catalog and a
  timestamp that parses. Then the second run returns without an exception and the
  target directory has the same set of entries after it as before it; the ledger file
  is there after both runs. Budgets, owner ids, the target's measured sizes, the
  outcomes of \<open>rsync\<close> and the order in which workers finish may differ between the runs:
  an entry can change from link to copy, but no path appears or disappears.
\<close>

theorem copy_datasets_idempotent:
  assumes "copy_datasets e1 s t cfg b1 lock1 led fs = Some w1" and "err w1 = None"
    and "h5_keys e2 = h5_keys e1" and "du e2 = du e1"
    and "strptime e2 (timestamp e2) \<noteq> None"
  shows "\<exists>w2. copy_datasets e2 s t cfg b2 lock2 (ledger w1) (tgt w1) = Some w2
           \<and> err w2 = None \<and> dom (tgt w2) = dom (tgt w1)
           \<and> ledger w1 \<noteq> None \<and> ledger w2 \<noteq> None"
proof -
  from copy_datasets_target_entries [OF assms(1,2)]
  have d1: "dom (tgt w1) = dom fs \<union> path_join t ` set (catalog_files e1 s cfg)"
    and l1: "ledger w1 \<noteq> None" by simp_all
  from copy_datasets_err [of e1 s t cfg b1 lock1 led fs] assms(1,2)
  have "list_all (plannable e1 s cfg) splits" by auto
  then have p2: "list_all (plannable e2 s cfg) splits"
    by (simp add: list_all_iff plannable_cong [OF assms(3,4)])
  from copy_datasets_err [of e2 s t cfg b2 lock2 "ledger w1" "tgt w1"] p2 assms(5)
  obtain w2 where w2: "copy_datasets e2 s t cfg b2 lock2 (ledger w1) (tgt w1) = Some w2"
    "err w2 = None" by auto
  from copy_datasets_target_entries [OF w2]
  have "dom (tgt w2) = dom (tgt w1) \<union> path_join t ` set (catalog_files e2 s cfg)"
    and l2: "ledger w2 \<noteq> None" by simp_all
  then have "dom (tgt w2) = dom (tgt w1)"
    using d1 catalog_files_cong [OF assms(3)] by auto
  with w2 l1 l2 show ?thesis by blast
qed

theorem copy_datasets_idempotent_witness:
  "\<exists>w1 w2. copy_datasets example_env ''/s'' ''/t'' example_cfg 5 (Some (str ''me'')) None Map.empty
              = Some w1
     \<and> err w1 = None
     \<and> dom (tgt w1) = {''/t/noiseA.bin'', ''/t/speechA.bin''}
     \<and> copy_datasets (example_env\<lparr>du_target := 3\<rparr>) ''/s'' ''/t'' example_cfg 5 (Some (str ''me''))
           (ledger w1) (tgt w1) = Some w2
     \<and> err w2 = None
     \<and> dom (tgt w2) = dom (tgt w1)"
proof -
  obtain w1 where w1: "copy_datasets example_env ''/s'' ''/t'' example_cfg 5 (Some (str ''me'')) None
        Map.empty = Some w1"
    and e1: "err w1 = None"
    and d1: "dom (tgt w1) = {''/t/noiseA.bin'', ''/t/speechA.bin''}"
    by (simp add: planner_eval example_env_def example_cfg_def insert_commute)
  have h: "h5_keys (example_env\<lparr>du_target := 3\<rparr>) = h5_keys example_env"
    and d: "du (example_env\<lparr>du_target := 3\<rparr>) = du example_env"
    by simp_all
  have p: "strptime (example_env\<lparr>du_target := 3\<rparr>) (timestamp (example_env\<lparr>du_target := 3\<rparr>)) \<noteq> None"
    by (simp add: example_env_def ledger_eval)
  from copy_datasets_idempotent [OF w1 e1 h d p]
  obtain w2 where "copy_datasets (example_env\<lparr>du_target := 3\<rparr>) ''/s'' ''/t'' example_cfg 5
        (Some (str ''me'')) (ledger w1) (tgt w1) = Some w2"
    "err w2 = None" "dom (tgt w2) = dom (tgt w1)"
    by blast
  with w1 e1 d1 show ?thesis by blast
qed

end
